theory Spec2Isabelle
  imports Main "HOL-Library.Word" "HOL-Library.Sublist"
begin

unbundle bit_operations_syntax

section \<open>Go library functions that \<open>convert\<close> calls\<close>

text \<open>
  A Go string is a sequence of bytes, and so is a \<open>[]byte\<close>: both are \<open>string\<close>
  (\<open>char list\<close>, one \<open>char\<close> per byte) here, and the conversion \<open>[]byte(s)\<close> is the
  identity. A slice that may be \<open>nil\<close> is a \<open>string option\<close> (\<open>None\<close> is \<open>nil\<close>).
\<close>

type_synonym int64 = "64 word"
type_synonym uint32 = "32 word"
type_synonym uint16 = "16 word"

subsection \<open>Package strings\<close>

definition strings_HasPrefix :: "string \<Rightarrow> string \<Rightarrow> bool" where
  "strings_HasPrefix s pre = (length pre \<le> length s \<and> take (length pre) s = pre)"

definition strings_HasSuffix :: "string \<Rightarrow> string \<Rightarrow> bool" where
  "strings_HasSuffix s suf = (length suf \<le> length s \<and> drop (length s - length suf) s = suf)"

definition strings_TrimPrefix :: "string \<Rightarrow> string \<Rightarrow> string" where
  "strings_TrimPrefix s pre = (if strings_HasPrefix s pre then drop (length pre) s else s)"

definition strings_TrimSuffix :: "string \<Rightarrow> string \<Rightarrow> string" where
  "strings_TrimSuffix s suf =
     (if strings_HasSuffix s suf then take (length s - length suf) s else s)"

text \<open>\<open>strings.Index\<close>: the index of the first occurrence of \<open>sub\<close> in \<open>s\<close>, or \<open>-1\<close>.\<close>

fun strings_Index :: "string \<Rightarrow> string \<Rightarrow> int" where
  "strings_Index [] sub = (if sub = [] then 0 else -1)"
| "strings_Index (c # s) sub =
     (if strings_HasPrefix (c # s) sub then 0
      else (let r = strings_Index s sub in if r < 0 then -1 else r + 1))"

definition strings_Contains :: "string \<Rightarrow> string \<Rightarrow> bool" where
  "strings_Contains s sub = (0 \<le> strings_Index s sub)"

subsection \<open>Package fmt: the verb \<open>%d\<close> on a non-negative int\<close>

definition digit_char :: "nat \<Rightarrow> char" where
  "digit_char d = ''0123456789'' ! d"

function fmt_d :: "nat \<Rightarrow> string" where
  "fmt_d n = (if n < 10 then [digit_char n] else fmt_d (n div 10) @ [digit_char (n mod 10)])"
  by pat_completeness auto
termination
  by (relation "measure (\<lambda>n. n)") auto

declare fmt_d.simps [simp del]

subsection \<open>Packages path and path/filepath (on a system whose separator is the slash)\<close>

text \<open>
  \<open>path.Base\<close>: trailing slashes are stripped, then everything up to the last slash;
  the empty path gives a dot and a path of slashes only gives one slash.
\<close>

definition path_Base :: "string \<Rightarrow> string" where
  "path_Base p =
     (if p = [] then ''.''
      else (let stripped = rev (dropWhile (\<lambda>c. c = CHR ''/'') (rev p));
                last_elem = rev (takeWhile (\<lambda>c. c \<noteq> CHR ''/'') (rev stripped))
            in if last_elem = [] then ''/'' else last_elem))"

text \<open>
  \<open>path.Clean\<close>, byte by byte as the library does it: \<open>p\<close> is what is left to read,
  \<open>out\<close> what has been written, \<open>dotdot\<close> the length of \<open>out\<close> below which a
  \<open>..\<close> element must not backtrack.
\<close>

definition is_dot :: "string \<Rightarrow> bool" where
  "is_dot p = (case p of [] \<Rightarrow> False
     | c # rest \<Rightarrow> c = CHR ''.'' \<and> (case rest of [] \<Rightarrow> True | d # _ \<Rightarrow> d = CHR ''/''))"

definition is_dotdot :: "string \<Rightarrow> bool" where
  "is_dotdot p = (case p of c # d # rest \<Rightarrow>
        c = CHR ''.'' \<and> d = CHR ''.'' \<and> (case rest of [] \<Rightarrow> True | e # _ \<Rightarrow> e = CHR ''/'')
     | _ \<Rightarrow> False)"

function back_loop :: "string \<Rightarrow> nat \<Rightarrow> nat \<Rightarrow> nat" where
  "back_loop out dotdot w =
     (if dotdot < w \<and> out ! w \<noteq> CHR ''/'' then back_loop out dotdot (w - 1) else w)"
  by pat_completeness auto
termination
  by (relation "measure (\<lambda>(out, dotdot, w). w)") auto

declare back_loop.simps [simp del]

definition add_slash :: "bool \<Rightarrow> string \<Rightarrow> string" where
  "add_slash rooted out =
     (if rooted \<and> length out \<noteq> 1 \<or> \<not> rooted \<and> length out \<noteq> 0 then out @ ''/'' else out)"

text \<open>One turn of the loop, on a non-empty rest \<open>p\<close>: the new rest, buffer and \<open>dotdot\<close>.\<close>

definition clean_step :: "bool \<Rightarrow> string \<Rightarrow> string \<Rightarrow> nat \<Rightarrow> string \<times> string \<times> nat" where
  "clean_step rooted p out dotdot =
     (if hd p = CHR ''/'' then (tl p, out, dotdot)
      else if is_dot p then (tl p, out, dotdot)
      else if is_dotdot p then
        (if dotdot < length out then
           (drop 2 p, take (back_loop out dotdot (length out - 1)) out, dotdot)
         else if \<not> rooted then
           (let out' = (if 0 < length out then out @ ''/'' else out) @ ''..''
            in (drop 2 p, out', length out'))
         else (drop 2 p, out, dotdot))
      else (dropWhile (\<lambda>x. x \<noteq> CHR ''/'') p,
            add_slash rooted out @ takeWhile (\<lambda>x. x \<noteq> CHR ''/'') p, dotdot))"

lemma clean_step_shorter: "p \<noteq> [] \<Longrightarrow> length (fst (clean_step rooted p out dotdot)) < length p"
proof (cases p)
  case Nil
  then show "p \<noteq> [] \<Longrightarrow> ?thesis" by simp
next
  case (Cons c rest)
  have "length (dropWhile (\<lambda>x. x \<noteq> CHR ''/'') rest) \<le> length rest"
    by (rule length_dropWhile_le)
  then show ?thesis
    using Cons by (auto simp add: clean_step_def Let_def)
qed

function clean_loop :: "bool \<Rightarrow> string \<Rightarrow> string \<Rightarrow> nat \<Rightarrow> string" where
  "clean_loop rooted p out dotdot =
     (if p = [] then out
      else (case clean_step rooted p out dotdot of
              (p', out', dotdot') \<Rightarrow> clean_loop rooted p' out' dotdot'))"
  by pat_completeness auto
termination
proof (relation "measure (\<lambda>(rooted, p, out, dotdot). length p)")
  show "wf (measure (\<lambda>(rooted, p, out, dotdot). length p))"
    by simp
next
  fix rooted :: bool and p out :: string and dotdot :: nat and p' y out' dotdot'
  assume "p \<noteq> []" and "(p', y) = clean_step rooted p out dotdot" and "(out', dotdot') = y"
  then have "p' = fst (clean_step rooted p out dotdot)"
    by (metis fst_conv)
  then show "((rooted, p', out', dotdot'), (rooted, p, out, dotdot))
      \<in> measure (\<lambda>(rooted, p, out, dotdot). length p)"
    using clean_step_shorter [OF \<open>p \<noteq> []\<close>] by simp
qed

declare clean_loop.simps [simp del]

definition path_Clean :: "string \<Rightarrow> string" where
  "path_Clean p =
     (case p of [] \<Rightarrow> ''.''
      | c # rest \<Rightarrow>
          (let rooted = (c = CHR ''/'');
               out = (if rooted then clean_loop rooted rest ''/'' 1 else clean_loop rooted p [] 0)
           in if out = [] then ''.'' else out))"

text \<open>
  \<open>path.Join\<close> (and \<open>filepath.Join\<close>, the same where the separator is the slash):
  leading empty elements are dropped, the others are joined with slashes, and the
  result is cleaned; no non-empty element gives the empty string.
\<close>

fun join_slash :: "string list \<Rightarrow> string" where
  "join_slash [] = []"
| "join_slash [e] = e"
| "join_slash (e # es) = e @ ''/'' @ join_slash es"

definition path_Join :: "string list \<Rightarrow> string" where
  "path_Join elem =
     (case dropWhile (\<lambda>e. e = []) elem of [] \<Rightarrow> [] | es \<Rightarrow> path_Clean (join_slash es))"

definition filepath_Join :: "string list \<Rightarrow> string" where
  "filepath_Join elem = path_Join elem"

text \<open>\<open>filepath.ToSlash\<close>: the path itself where the separator is the slash.\<close>

definition filepath_Separator :: char where
  "filepath_Separator = CHR ''/''"

definition filepath_ToSlash :: "string \<Rightarrow> string" where
  "filepath_ToSlash p =
     (if filepath_Separator = CHR ''/'' then p
      else map (\<lambda>c. if c = filepath_Separator then CHR ''/'' else c) p)"

section \<open>The data of \<open>main.go\<close>\<close>

definition MaxMemoryUsage :: int64 where
  "MaxMemoryUsage = 2 * 1024 * 1024 * 1024"

text \<open>
  \<open>VirtualFile\<close>, the bridge between the extracted tar and the final zip. \<open>Data\<close>
  is \<open>nil\<close> (\<open>None\<close>) until a buffer is stored in it, and the buffer that
  \<open>io.ReadAll\<close> returns is never \<open>nil\<close>, also when it holds no byte;
  \<open>ModTime\<close> is a point in time, an integer here.
\<close>

record VirtualFile =
  Name :: string
  Data :: "string option"
  DiskPath :: string
  Mode :: int64
  ModTime :: int
  IsDir :: bool
  IsLink :: bool
  LinkDest :: string

record PlistDict =
  Keys :: "string list"
  String :: "string list"

record Plist =
  Dict :: PlistDict

subsection \<open>What the libraries hand to \<open>convert\<close>\<close>

text \<open>The fields of \<open>tar.Header\<close> that are read, and the three type flags compared with.\<close>

record tar_Header =
  hdr_Name :: string
  hdr_Typeflag :: char
  hdr_Mode :: int64
  hdr_Size :: int64
  hdr_ModTime :: int
  hdr_Linkname :: string

definition tar_TypeReg :: char where
  "tar_TypeReg = CHR ''0''"

definition tar_TypeSymlink :: char where
  "tar_TypeSymlink = CHR ''2''"

definition tar_TypeDir :: char where
  "tar_TypeDir = CHR ''5''"

text \<open>
  One answer of \<open>tarReader.Next()\<close>: an error, or a header together with the bytes
  the reader then delivers for this entry and whether reading them ends in an error.
  The end of the list is \<open>io.EOF\<close>.
\<close>

datatype tar_item = TarError | TarEntry tar_Header string bool

text \<open>One answer of \<open>arReader.Next()\<close>: an error, or a member's name and its bytes.\<close>

datatype ar_item = ArError | ArMember string string

datatype codec = Gzip | Lzma | Bzip2 | Xz

text \<open>
  Opening a decoder over a member and reading the result as a tar stream: the
  constructor fails, or the tar reader on top of it gives these items.
\<close>

datatype decoder = InitError | TarStream "tar_item list"

text \<open>The fields of \<open>zip.FileHeader\<close> that are set, and the two compression methods.\<close>

record zip_FileHeader =
  zip_Name :: string
  Method :: uint16
  Modified :: int
  CreatorVersion :: uint16
  ExternalAttrs :: uint32

definition zip_Store :: uint16 where
  "zip_Store = 0"

definition zip_Deflate :: uint16 where
  "zip_Deflate = 8"

text \<open>An entry of the output archive: the header given to \<open>CreateHeader\<close> and the body written.\<close>

record zip_entry =
  header :: zip_FileHeader
  body :: string

text \<open>
  The outside world of one run: what opening the input gives (\<open>None\<close> is an error),
  what the ar reader makes of it, the decoders, the directory \<open>os.MkdirTemp\<close>
  returns, which paths \<open>os.Create\<close> can create, what \<open>xml.Unmarshal\<close> decodes a
  descriptor to, and which headers the zip writer accepts.
\<close>

record env =
  os_Open :: "string \<Rightarrow> string option"
  ar_NewReader :: "string \<Rightarrow> ar_item list option"
  NewReader :: "codec \<Rightarrow> string \<Rightarrow> decoder"
  os_MkdirTemp :: "string option"
  os_Create :: "string \<Rightarrow> bool"
  xml_Unmarshal :: "string \<Rightarrow> Plist option"
  zip_CreateHeader :: "zip_FileHeader \<Rightarrow> bool"

text \<open>The errors \<open>convert\<close> returns, one per \<open>return\<close> of an error in the source.\<close>

datatype error =
    OpenError                        \<comment> \<open>no permission or file not found\<close>
  | ContainerFormatError             \<comment> \<open>invalid deb archive\<close>
  | ArReadError                      \<comment> \<open>an error of \<open>arReader.Next()\<close>\<close>
  | UnsupportedCompressionKind string  \<comment> \<open>unsupported compression method\<close>
  | DecompressionInitError           \<comment> \<open>decompression failed\<close>
  | MissingPayloadMember             \<comment> \<open>data.tar not found in deb\<close>
  | TempDirError                     \<comment> \<open>an error of \<open>os.MkdirTemp\<close>\<close>
  | TarReadError                     \<comment> \<open>tar read error\<close>
  | ReadAllError                     \<comment> \<open>an error of \<open>io.ReadAll\<close>\<close>
  | SpilloverIOError                 \<comment> \<open>an error of \<open>os.Create\<close> on a spill file\<close>
  | AppRootNotFound                  \<comment> \<open>unsupported app: could not find .app directory\<close>
  | OutputCreateError                \<comment> \<open>an error of \<open>os.Create\<close> on the output\<close>
  | OutputWriteError                 \<comment> \<open>an error of \<open>zipWriter.CreateHeader\<close>\<close>

section \<open>Finding and opening the payload member (lines 91 to 128)\<close>

fun find_dataTar :: "env \<Rightarrow> ar_item list \<Rightarrow> error + tar_item list option" where
  "find_dataTar E [] = Inr None"
| "find_dataTar E (ArError # rest) = Inl ArReadError"
| "find_dataTar E (ArMember name payload # rest) =
     (if strings_HasPrefix name ''data.tar'' then
        (if strings_HasSuffix name ''.gz'' then
           (case NewReader E Gzip payload of
              InitError \<Rightarrow> Inl DecompressionInitError | TarStream s \<Rightarrow> Inr (Some s))
         else if strings_HasSuffix name ''.lzma'' then
           (case NewReader E Lzma payload of
              InitError \<Rightarrow> Inl DecompressionInitError | TarStream s \<Rightarrow> Inr (Some s))
         else if strings_HasSuffix name ''.bzip2'' then
           (case NewReader E Bzip2 payload of
              InitError \<Rightarrow> Inr (Some [TarError]) | TarStream s \<Rightarrow> Inr (Some s))
         else if strings_HasSuffix name ''.xz'' then
           (case NewReader E Xz payload of
              InitError \<Rightarrow> Inl DecompressionInitError | TarStream s \<Rightarrow> Inr (Some s))
         else Inl (UnsupportedCompressionKind name))
      else find_dataTar E rest)"

text \<open>
  \<open>bzip2.NewReader\<close> returns no error: a stream it cannot decode fails at the first
  read, which is the first \<open>tarReader.Next()\<close>.
\<close>

section \<open>The extraction pass (lines 143 to 228)\<close>

record ext_state =
  files :: "VirtualFile list"
  currentRamUsage :: int64
  totalSize :: int64
  appDirPrefix :: string
  infoPlistData :: "string option"
  fileCount :: nat
  spillCount :: nat
  disk :: "string \<Rightarrow> string option"

text \<open>\<open>disk\<close> holds the spill files written so far, by path.\<close>

definition init_state :: ext_state where
  "init_state = \<lparr>files = [], currentRamUsage = 0, totalSize = 0, appDirPrefix = [],
     infoPlistData = None, fileCount = 0, spillCount = 0, disk = (\<lambda>p. None)\<rparr>"

definition len :: "string option \<Rightarrow> nat" where
  "len b = (case b of None \<Rightarrow> 0 | Some d \<Rightarrow> length d)"

text \<open>Lines 172 to 177: the app root, looked for while none has been found.\<close>

definition detect_app :: "string \<Rightarrow> string \<Rightarrow> string" where
  "detect_app found name =
     (if found = [] then
        (let idx = strings_Index name ''.app/''
         in if idx \<noteq> -1 then take (nat (idx + 5)) name else found)
      else found)"

text \<open>Lines 218 to 221: the descriptor's bytes, kept when the buffer is not empty.\<close>

definition capture :: "string \<Rightarrow> string option \<Rightarrow> string option \<Rightarrow> string option" where
  "capture name buf info =
     (if strings_HasSuffix name ''Info.plist'' \<and> 0 < len buf then buf else info)"

definition spill_name :: "nat \<Rightarrow> string" where
  "spill_name n = ''spill_'' @ fmt_d n"

fun tar_step :: "env \<Rightarrow> string \<Rightarrow> ext_state \<Rightarrow> tar_item \<Rightarrow> error + ext_state" where
  "tar_step E tempDir st TarError = Inl TarReadError"
| "tar_step E tempDir st (TarEntry h content read_fails) =
     (let st1 = st\<lparr>fileCount := fileCount st + 1,
                    appDirPrefix := detect_app (appDirPrefix st) (hdr_Name h)\<rparr>;
          vFile = \<lparr>Name = hdr_Name h, Data = None, DiskPath = [], Mode = hdr_Mode h,
                   ModTime = hdr_ModTime h, IsDir = (hdr_Typeflag h = tar_TypeDir),
                   IsLink = False, LinkDest = []\<rparr>
      in if hdr_Typeflag h = tar_TypeSymlink then
           Inr (st1\<lparr>files := files st1 @ [vFile\<lparr>IsLink := True, LinkDest := hdr_Linkname h\<rparr>]\<rparr>)
         else if hdr_Typeflag h = tar_TypeReg then
           (let st2 = st1\<lparr>totalSize := totalSize st1 + hdr_Size h\<rparr>
            in if word_sless (currentRamUsage st2 + hdr_Size h) MaxMemoryUsage then
                 (if read_fails then Inl ReadAllError
                  else Inr (st2\<lparr>currentRamUsage := currentRamUsage st2 + of_nat (length content),
                                infoPlistData := capture (hdr_Name h) (Some content) (infoPlistData st2),
                                files := files st2 @ [vFile\<lparr>Data := Some content\<rparr>]\<rparr>))
               else
                 (let tempPath = filepath_Join [tempDir, spill_name (spillCount st2 + 1)]
                  in if \<not> os_Create E tempPath then Inl SpilloverIOError
                     else Inr (st2\<lparr>spillCount := spillCount st2 + 1,
                                   disk := (disk st2)(tempPath := Some content),
                                   infoPlistData := capture (hdr_Name h) None (infoPlistData st2),
                                   files := files st2 @ [vFile\<lparr>DiskPath := tempPath\<rparr>]\<rparr>)))
         else if hdr_Typeflag h = tar_TypeDir then
           Inr (st1\<lparr>files := files st1 @ [vFile]\<rparr>)
         else Inr st1)"

text \<open>
  In the RAM branch an error of \<open>io.ReadAll\<close> ends the run. In the spill branch
  the error of \<open>io.Copy\<close> is assigned and never read: the bytes that were
  delivered are in the file. The comparison with the ceiling is that of \<open>int64\<close>,
  on a sum that wraps around.
\<close>

fun tar_loop :: "env \<Rightarrow> string \<Rightarrow> ext_state \<Rightarrow> tar_item list \<Rightarrow> error + ext_state" where
  "tar_loop E tempDir st [] = Inr st"
| "tar_loop E tempDir st (item # items) =
     (case tar_step E tempDir st item of
        Inl e \<Rightarrow> Inl e
      | Inr st' \<Rightarrow> tar_loop E tempDir st' items)"

section \<open>Metadata parsing (lines 239 to 270)\<close>

record metadata =
  executableName :: string
  bundleID :: string
  version :: string

text \<open>The body of the loop over the keys, for the key at hand and the string paired with it.\<close>

definition set_key :: "string \<Rightarrow> string \<Rightarrow> metadata \<Rightarrow> metadata" where
  "set_key key v m =
     (let m1 = (if key = ''CFBundleExecutable'' then m\<lparr>executableName := v\<rparr> else m);
          m2 = (if key = ''CFBundleIdentifier'' then m1\<lparr>bundleID := v\<rparr> else m1)
      in if key = ''CFBundleVersion'' \<or> key = ''CFBundleShortVersionString''
         then m2\<lparr>version := v\<rparr> else m2)"

function key_loop :: "nat \<Rightarrow> string list \<Rightarrow> string list \<Rightarrow> metadata \<Rightarrow> metadata" where
  "key_loop i keys strs m =
     (if i < length keys then
        (if length strs \<le> i then m
         else key_loop (i + 1) keys strs (set_key (keys ! i) (strs ! i) m))
      else m)"
  by pat_completeness auto
termination
  by (relation "measure (\<lambda>(i, keys, strs, m). length keys - i)") auto

declare key_loop.simps [simp del]

definition default_metadata :: metadata where
  "default_metadata = \<lparr>executableName = [], bundleID = ''Unknown'', version = ''Unknown''\<rparr>"

definition parse_plist :: "env \<Rightarrow> string option \<Rightarrow> metadata" where
  "parse_plist E info =
     (if 0 < len info then
        (case info of None \<Rightarrow> default_metadata
         | Some d \<Rightarrow>
             (case xml_Unmarshal E d of
                None \<Rightarrow> default_metadata
              | Some plist \<Rightarrow> key_loop 0 (Keys (Dict plist)) (String (Dict plist)) default_metadata))
      else default_metadata)"

text \<open>Lines 265 to 270: the executable's name guessed from the folder when it is empty.\<close>

definition fallback_name :: "string \<Rightarrow> metadata \<Rightarrow> metadata" where
  "fallback_name appNameFolder m =
     (if executableName m = [] then m\<lparr>executableName := strings_TrimSuffix appNameFolder ''.app''\<rparr>
      else m)"

section \<open>Building the archive (lines 276 to 386)\<close>

text \<open>
  Lines 319 to 362: the compression method, the Unix file type and the permission
  bits of an entry. The permissions 0777, 0755 and 0644 are \<open>0x1FF\<close>, \<open>0x1ED\<close> and
  \<open>0x1A4\<close>. \<open>os.FileMode\<close> is a \<open>uint32\<close>: the conversion keeps the low 32 bits of
  the mode.
\<close>

definition permission_fix :: "VirtualFile \<Rightarrow> string \<Rightarrow> string \<Rightarrow> uint16 \<times> uint32 \<times> uint32" where
  "permission_fix vf finalPath exeName =
     (let perms = (ucast (Mode vf) :: uint32) AND 0x1FF
      in if IsLink vf then (zip_Store, 0xA000, 0x1FF)
         else if IsDir vf then (zip_Store, 0x4000, if perms = 0 then 0x1ED else perms)
         else
           (let isMainBinary = (path_Base finalPath = exeName);
                perms' = (if isMainBinary \<or> strings_HasSuffix finalPath ''.dylib''
                             \<or> strings_Contains finalPath ''/bin/'' then 0x1ED
                          else if perms = 0 then 0x1A4 else perms)
            in (if isMainBinary then zip_Store else zip_Deflate, 0x8000, perms')))"

definition final_path :: "string \<Rightarrow> string \<Rightarrow> VirtualFile \<Rightarrow> string" where
  "final_path cleanAppPrefix appNameFolder vf =
     (let cleanName = filepath_ToSlash (Name vf);
          relPath = strings_TrimPrefix cleanName cleanAppPrefix;
          finalPath = path_Join [''Payload'', appNameFolder, relPath]
      in if IsDir vf then finalPath @ ''/'' else finalPath)"

text \<open>
  The header as it is given to \<open>CreateHeader\<close>. \<open>SetMode\<close> leaves the creator
  version (Unix, 3, in the high byte); what it writes to the external attributes is
  overwritten at line 366.
\<close>

definition build_header :: "string \<Rightarrow> string \<Rightarrow> string \<Rightarrow> VirtualFile \<Rightarrow> zip_FileHeader" where
  "build_header cleanAppPrefix appNameFolder exeName vf =
     (let finalPath = final_path cleanAppPrefix appNameFolder vf
      in case permission_fix vf finalPath exeName of
           (method, unixFileType, perms) \<Rightarrow>
             \<lparr>zip_Name = finalPath, Method = method, Modified = ModTime vf,
              CreatorVersion = 0x0300,
              ExternalAttrs = push_bit 16 (unixFileType OR perms)\<rparr>)"

text \<open>Lines 373 to 383: what is written as the body of the entry.\<close>

definition entry_body :: "(string \<Rightarrow> string option) \<Rightarrow> VirtualFile \<Rightarrow> string" where
  "entry_body dsk vf =
     (if IsLink vf then LinkDest vf
      else if \<not> IsDir vf then
        (if DiskPath vf \<noteq> [] then (case dsk (DiskPath vf) of None \<Rightarrow> [] | Some b \<Rightarrow> b)
         else (case Data vf of None \<Rightarrow> [] | Some b \<Rightarrow> b))
      else [])"

definition in_app :: "string \<Rightarrow> VirtualFile \<Rightarrow> bool" where
  "in_app cleanAppPrefix vf = strings_HasPrefix (filepath_ToSlash (Name vf)) cleanAppPrefix"

definition emit :: "string \<Rightarrow> string \<Rightarrow> string \<Rightarrow> (string \<Rightarrow> string option) \<Rightarrow> VirtualFile \<Rightarrow> zip_entry" where
  "emit cleanAppPrefix appNameFolder exeName dsk vf =
     \<lparr>header = build_header cleanAppPrefix appNameFolder exeName vf, body = entry_body dsk vf\<rparr>"

text \<open>
  The loop over the files (lines 290 to 384): the error it stops at, if any, and the
  entries written to the archive until then.
\<close>

fun pack_files :: "env \<Rightarrow> string \<Rightarrow> string \<Rightarrow> string \<Rightarrow> (string \<Rightarrow> string option) \<Rightarrow>
    VirtualFile list \<Rightarrow> error option \<times> zip_entry list" where
  "pack_files E cleanAppPrefix appNameFolder exeName dsk [] = (None, [])"
| "pack_files E cleanAppPrefix appNameFolder exeName dsk (vf # vfs) =
     (if \<not> in_app cleanAppPrefix vf then
        pack_files E cleanAppPrefix appNameFolder exeName dsk vfs
      else if \<not> zip_CreateHeader E (build_header cleanAppPrefix appNameFolder exeName vf) then
        (Some OutputWriteError, [])
      else
        (case pack_files E cleanAppPrefix appNameFolder exeName dsk vfs of
           (e, es) \<Rightarrow> (e, emit cleanAppPrefix appNameFolder exeName dsk vf # es)))"

section \<open>\<open>convert\<close>\<close>

text \<open>
  What a run leaves: the error returned, if any, and the output file, if it was
  created, with its path and the entries written to it. The spill directory is
  removed when \<open>convert\<close> returns and is not part of the outcome.
\<close>

record outcome =
  failure :: "error option"
  ipa :: "(string \<times> zip_entry list) option"

definition fails :: "error \<Rightarrow> outcome" where
  "fails e = \<lparr>failure = Some e, ipa = None\<rparr>"

definition ipa_path :: "string \<Rightarrow> string" where
  "ipa_path debPath = strings_TrimSuffix debPath ''.deb'' @ ''.ipa''"

definition app_folder :: "ext_state \<Rightarrow> string" where
  "app_folder st = path_Base (filepath_ToSlash (appDirPrefix st))"

definition app_metadata :: "env \<Rightarrow> ext_state \<Rightarrow> metadata" where
  "app_metadata E st = fallback_name (app_folder st) (parse_plist E (infoPlistData st))"

definition package :: "env \<Rightarrow> string \<Rightarrow> ext_state \<Rightarrow> outcome" where
  "package E debPath st =
     (let cleanAppPrefix = filepath_ToSlash (appDirPrefix st);
          appNameFolder = app_folder st;
          exeName = executableName (app_metadata E st);
          ipaPath = ipa_path debPath
      in if \<not> os_Create E ipaPath then fails OutputCreateError
         else (case pack_files E cleanAppPrefix appNameFolder exeName (disk st) (files st) of
                 (e, es) \<Rightarrow> \<lparr>failure = e, ipa = Some (ipaPath, es)\<rparr>))"

definition extraction :: "env \<Rightarrow> string \<Rightarrow> tar_item list \<Rightarrow> error + ext_state" where
  "extraction E tempDir items = tar_loop E tempDir init_state items"

definition convert :: "env \<Rightarrow> string \<Rightarrow> outcome" where
  "convert E debPath =
     (case os_Open E debPath of
        None \<Rightarrow> fails OpenError
      | Some debFile \<Rightarrow>
     (case ar_NewReader E debFile of
        None \<Rightarrow> fails ContainerFormatError
      | Some members \<Rightarrow>
     (case find_dataTar E members of
        Inl e \<Rightarrow> fails e
      | Inr None \<Rightarrow> fails MissingPayloadMember
      | Inr (Some items) \<Rightarrow>
     (case os_MkdirTemp E of
        None \<Rightarrow> fails TempDirError
      | Some tempDir \<Rightarrow>
     (case extraction E tempDir items of
        Inl e \<Rightarrow> fails e
      | Inr st \<Rightarrow>
          if appDirPrefix st = [] then fails AppRootNotFound
          else package E debPath st)))))"

section \<open>The specification's notions\<close>

text \<open>
  The kind of an entry, and the permission algebra in the words of the
  specification: from the kind, the source mode, whether the entry is the main
  executable and the output path, to the type bits, the permission bits and the
  compression method.
\<close>

datatype kind = Symlink | Directory | Regular

definition kind_of :: "VirtualFile \<Rightarrow> kind" where
  "kind_of vf = (if IsLink vf then Symlink else if IsDir vf then Directory else Regular)"

definition permission_algebra :: "kind \<Rightarrow> uint32 \<Rightarrow> bool \<Rightarrow> string \<Rightarrow> uint32 \<times> uint32 \<times> uint16" where
  "permission_algebra k sourceMode isMainExecutable path =
     (case k of
        Symlink \<Rightarrow> (0xA000, 0x1FF, zip_Store)
      | Directory \<Rightarrow> (0x4000, if sourceMode \<noteq> 0 then sourceMode else 0x1ED, zip_Store)
      | Regular \<Rightarrow>
          if isMainExecutable then (0x8000, 0x1ED, zip_Store)
          else if strings_HasSuffix path ''.dylib'' \<or> strings_Contains path ''/bin/''
          then (0x8000, 0x1ED, zip_Deflate)
          else (0x8000, if sourceMode \<noteq> 0 then sourceMode else 0x1A4, zip_Deflate))"

text \<open>The decoder the specification assigns to a member name, by its suffix.\<close>

definition codec_of :: "string \<Rightarrow> codec option" where
  "codec_of name =
     (if strings_HasSuffix name ''.gz'' then Some Gzip
      else if strings_HasSuffix name ''.xz'' then Some Xz
      else if strings_HasSuffix name ''.lzma'' then Some Lzma
      else if strings_HasSuffix name ''.bzip2'' then Some Bzip2
      else None)"

text \<open>
  The metadata in the words of the specification: the i-th key is paired with the
  i-th string, and a field is the value of the last pair whose key sets it, or its
  default.
\<close>

definition last_value :: "string list \<Rightarrow> (string \<times> string) list \<Rightarrow> string \<Rightarrow> string" where
  "last_value ks pairs d =
     (case filter (\<lambda>kv. fst kv \<in> set ks) pairs of [] \<Rightarrow> d | p # ps \<Rightarrow> snd (last (p # ps)))"

definition metadata_of_lists :: "string list \<Rightarrow> string list \<Rightarrow> metadata" where
  "metadata_of_lists keys strs =
     \<lparr>executableName = last_value [''CFBundleExecutable''] (zip keys strs) [],
      bundleID = last_value [''CFBundleIdentifier''] (zip keys strs) ''Unknown'',
      version = last_value [''CFBundleVersion'', ''CFBundleShortVersionString'']
                  (zip keys strs) ''Unknown''\<rparr>"

text \<open>The headers of a tar stream in traversal order, and those that are classified.\<close>

fun entry_headers :: "tar_item list \<Rightarrow> tar_Header list" where
  "entry_headers [] = []"
| "entry_headers (TarError # items) = entry_headers items"
| "entry_headers (TarEntry h content read_fails # items) = h # entry_headers items"

definition classified :: "tar_Header \<Rightarrow> bool" where
  "classified h = (hdr_Typeflag h = tar_TypeSymlink \<or> hdr_Typeflag h = tar_TypeReg
     \<or> hdr_Typeflag h = tar_TypeDir)"

text \<open>
  The headers of a tar stream with the bytes delivered for each, and what it is for a
  file of the store to hold an entry: its name, mode, time and kind, and as the body
  the packaging loop writes for it (read from the disk \<open>dsk\<close> when it was
  spilled) the link target of a symbolic link, the bytes of a regular file, nothing
  for a directory.
\<close>

fun entry_contents :: "tar_item list \<Rightarrow> (tar_Header \<times> string) list" where
  "entry_contents [] = []"
| "entry_contents (TarError # items) = entry_contents items"
| "entry_contents (TarEntry h content read_fails # items) = (h, content) # entry_contents items"

definition stored_as :: "(string \<Rightarrow> string option) \<Rightarrow> tar_Header \<times> string \<Rightarrow> VirtualFile \<Rightarrow> bool" where
  "stored_as dsk e vf =
     (Name vf = hdr_Name (fst e) \<and> Mode vf = hdr_Mode (fst e) \<and> ModTime vf = hdr_ModTime (fst e)
      \<and> IsLink vf = (hdr_Typeflag (fst e) = tar_TypeSymlink)
      \<and> IsDir vf = (hdr_Typeflag (fst e) = tar_TypeDir)
      \<and> entry_body dsk vf =
          (if hdr_Typeflag (fst e) = tar_TypeSymlink then hdr_Linkname (fst e)
           else if hdr_Typeflag (fst e) = tar_TypeReg then snd e
           else []))"

text \<open>A file of the store whose bytes qualify as the descriptor.\<close>

definition descriptor_in_ram :: "VirtualFile \<Rightarrow> bool" where
  "descriptor_in_ram vf =
     (kind_of vf = Regular \<and> strings_HasSuffix (Name vf) ''Info.plist''
      \<and> (case Data vf of None \<Rightarrow> False | Some d \<Rightarrow> d \<noteq> []))"

text \<open>The bytes of the last such file of a store, if there is one.\<close>

definition descriptor_of :: "VirtualFile list \<Rightarrow> string option" where
  "descriptor_of fs =
     (if filter descriptor_in_ram fs = [] then None
      else Data (last (filter descriptor_in_ram fs)))"

text \<open>
  What holds of a state of the pass with the spill directory \<open>t\<close>: every regular
  file of the store has a buffer or a spill path and not both, the spill paths are
  those of spill files numbered up to the spill count, no two files share one, and
  the disk holds such files only.
\<close>

definition placed :: "string \<Rightarrow> ext_state \<Rightarrow> bool" where
  "placed t st =
     ((\<forall>vf \<in> set (files st).
          (kind_of vf = Regular \<longrightarrow> (Data vf \<noteq> None) \<noteq> (DiskPath vf \<noteq> []))
        \<and> (DiskPath vf \<noteq> [] \<longrightarrow>
             (\<exists>k. k \<le> spillCount st \<and> DiskPath vf = filepath_Join [t, spill_name k])))
      \<and> distinct (filter (\<lambda>p. p \<noteq> []) (map DiskPath (files st)))
      \<and> (\<forall>p. disk st p \<noteq> None \<longrightarrow>
             (\<exists>k. k \<le> spillCount st \<and> p = filepath_Join [t, spill_name k])))"

text \<open>The number a decimal numeral stands for.\<close>

definition digit_value :: "char \<Rightarrow> nat" where
  "digit_value c = length (takeWhile (\<lambda>d. d \<noteq> c) ''0123456789'')"

definition decimal_value :: "string \<Rightarrow> nat" where
  "decimal_value s = foldl (\<lambda>acc c. 10 * acc + digit_value c) 0 s"

section \<open>A sample run\<close>

definition sample_header :: "string \<Rightarrow> char \<Rightarrow> int64 \<Rightarrow> int64 \<Rightarrow> tar_Header" where
  "sample_header n t m s =
     \<lparr>hdr_Name = n, hdr_Typeflag = t, hdr_Mode = m, hdr_Size = s, hdr_ModTime = 7,
      hdr_Linkname = ''Foo''\<rparr>"

definition sample_items :: "tar_item list" where
  "sample_items =
     [TarEntry (sample_header ''./'' tar_TypeDir 0x1ED 0) [] False,
      TarEntry (sample_header ''./Foo.app/'' tar_TypeDir 0 0) [] False,
      TarEntry (sample_header ''./Foo.app/Foo'' tar_TypeReg 0x1A4 3) ''abc'' False,
      TarEntry (sample_header ''./Foo.app/Info.plist'' tar_TypeReg 0x9A4 2) ''pl'' False,
      TarEntry (sample_header ''./Foo.app/big'' tar_TypeReg 0 0x7FFFFFFF) ''BIG'' False,
      TarEntry (sample_header ''./Foo.app/dev'' (CHR ''3'') 0 0) [] False,
      TarEntry (sample_header ''./Foo.app/run'' tar_TypeSymlink 0 0) [] False,
      TarEntry (sample_header ''./Bar.app/Info.plist'' tar_TypeReg 0x1A4 0) [] False]"

definition sample_plist :: Plist where
  "sample_plist = \<lparr>Dict = \<lparr>Keys = [''CFBundleExecutable'', ''CFBundleIdentifier''],
     String = [''Foo'', ''com.example.foo'']\<rparr>\<rparr>"

definition sample_env :: "string \<Rightarrow> env" where
  "sample_env member =
     \<lparr>os_Open = (\<lambda>p. Some ''!<arch>''),
      ar_NewReader = (\<lambda>f. Some [ArMember ''debian-binary'' ''2.0'', ArMember member ''z'']),
      NewReader = (\<lambda>c b. TarStream sample_items),
      os_MkdirTemp = Some ''/tmp/ipa-spill1'',
      os_Create = (\<lambda>p. True),
      xml_Unmarshal = (\<lambda>b. Some sample_plist),
      zip_CreateHeader = (\<lambda>h. True)\<rparr>"

text \<open>
  The state of the pass after the first four entries of the sample stream, with 5
  bytes in RAM, and a header that declares the largest size an \<open>int64\<close> holds.
\<close>

definition before_overflow :: ext_state where
  "before_overflow =
     projr (extraction (sample_env ''data.tar.gz'') ''/tmp/s'' (take 4 sample_items))"

definition overflow_header :: tar_Header where
  "overflow_header = sample_header ''./Foo.app/huge'' tar_TypeReg 0x1A4 0x7FFFFFFFFFFFFFFF"

definition sample_files :: "VirtualFile list" where
  "sample_files =
     [\<lparr>Name = ''./Foo.app/'', Data = None, DiskPath = [], Mode = 0, ModTime = 7,
       IsDir = True, IsLink = False, LinkDest = []\<rparr>,
      \<lparr>Name = ''./Foo.app/Foo'', Data = Some ''abc'', DiskPath = [], Mode = 0x1A4, ModTime = 7,
       IsDir = False, IsLink = False, LinkDest = []\<rparr>,
      \<lparr>Name = ''./Foo.app/run'', Data = None, DiskPath = [], Mode = 0, ModTime = 7,
       IsDir = False, IsLink = True, LinkDest = ''Foo''\<rparr>,
      \<lparr>Name = ''./Bar.app/x'', Data = Some ''x'', DiskPath = [], Mode = 0x9ED, ModTime = 7,
       IsDir = False, IsLink = False, LinkDest = []\<rparr>]"

section \<open>The packaging loop\<close>

lemma pack_files_emitted:
  "pack_files E cp an ex dsk fs = (err, es) \<Longrightarrow>
     prefix es (map (emit cp an ex dsk) (filter (in_app cp) fs)) \<and>
     (err = None \<longrightarrow> es = map (emit cp an ex dsk) (filter (in_app cp) fs))"
  by (induction fs arbitrary: err es) (auto split: prod.splits if_splits)

lemma emitted_from_file:
  assumes "pack_files E cp an ex dsk fs = (err, es)" and "e \<in> set es"
  shows "\<exists>vf \<in> set fs. in_app cp vf \<and> e = emit cp an ex dsk vf"
proof -
  from assms(1) have "prefix es (map (emit cp an ex dsk) (filter (in_app cp) fs))"
    by (simp add: pack_files_emitted)
  then have "set es \<subseteq> set (map (emit cp an ex dsk) (filter (in_app cp) fs))"
    by (rule set_mono_prefix)
  with assms(2) show ?thesis by auto
qed

lemma low16_shift_back:
  fixes w :: uint32
  assumes "take_bit 16 w = w"
  shows "drop_bit 16 (push_bit 16 w) = w"
proof (rule bit_word_eqI)
  fix n assume "n < LENGTH(32)"
  have "bit w n \<longleftrightarrow> n < 16 \<and> bit w n"
    using assms by (metis bit_take_bit_iff)
  then show "bit (drop_bit 16 (push_bit 16 w)) n = bit w n"
    by (auto simp add: bit_drop_bit_eq bit_push_bit_iff)
qed

lemma and_1FF: "take_bit 16 ((x :: uint32) AND 0x1FF) = x AND 0x1FF"
proof -
  have "(0x1FF :: uint32) = mask 9" by (simp add: mask_eq_exp_minus_1)
  then have "x AND 0x1FF = take_bit 9 x" by (simp add: take_bit_eq_mask)
  then show ?thesis by simp
qed

lemma permission_fix_low16:
  "permission_fix vf fp ex = (m, t, pm) \<Longrightarrow> take_bit 16 (t OR pm) = t OR pm"
  by (auto simp add: permission_fix_def Let_def take_bit_or and_1FF simp del: take_bit_and
      split: if_splits)

lemma permission_fix_type:
  "permission_fix vf fp ex = (m, t, pm) \<Longrightarrow>
     t = (if IsLink vf then 0xA000 else if IsDir vf then 0x4000 else 0x8000)"
  by (auto simp add: permission_fix_def Let_def split: if_splits)

lemma build_header_fields:
  assumes "permission_fix vf (final_path cp an vf) ex = (m, t, pm)"
  shows "zip_Name (build_header cp an ex vf) = final_path cp an vf"
    and "Method (build_header cp an ex vf) = m"
    and "ExternalAttrs (build_header cp an ex vf) = push_bit 16 (t OR pm)"
    and "Modified (build_header cp an ex vf) = ModTime vf"
  using assms by (simp_all add: build_header_def Let_def)

text \<open>
  The entries of an output file are what the packaging loop writes from the store of
  the extraction pass, with the app root, the app folder and the executable's name
  found in that pass.
\<close>

lemma package_written:
  assumes "ipa (package E debPath st) = Some (p, es)"
  shows "pack_files E (filepath_ToSlash (appDirPrefix st)) (app_folder st)
           (executableName (app_metadata E st)) (disk st) (files st)
         = (failure (package E debPath st), es)"
  using assms
  by (auto simp add: package_def fails_def Let_def split: if_splits prod.splits)

lemma convert_written:
  assumes "ipa (convert E debPath) = Some (p, es)"
  shows "\<exists>f ms items tmp st.
           os_Open E debPath = Some f \<and> ar_NewReader E f = Some ms
         \<and> find_dataTar E ms = Inr (Some items) \<and> os_MkdirTemp E = Some tmp
         \<and> extraction E tmp items = Inr st \<and> appDirPrefix st \<noteq> []
         \<and> pack_files E (filepath_ToSlash (appDirPrefix st)) (app_folder st)
              (executableName (app_metadata E st)) (disk st) (files st)
            = (failure (convert E debPath), es)"
proof (cases "os_Open E debPath")
  case None
  with assms show ?thesis
    by (simp add: convert_def fails_def)
next
  case opened: (Some f)
  show ?thesis
  proof (cases "ar_NewReader E f")
    case None
    with assms opened show ?thesis
      by (simp add: convert_def fails_def)
  next
    case members: (Some ms)
    show ?thesis
    proof (cases "find_dataTar E ms")
      case (Inl e)
      with assms opened members show ?thesis
        by (simp add: convert_def fails_def)
    next
      case found: (Inr r)
      show ?thesis
      proof (cases r)
        case None
        with assms opened members found show ?thesis
          by (simp add: convert_def fails_def)
      next
        case stream: (Some items)
        show ?thesis
        proof (cases "os_MkdirTemp E")
          case None
          with assms opened members found stream show ?thesis
            by (simp add: convert_def fails_def)
        next
          case temp: (Some tmp)
          show ?thesis
          proof (cases "extraction E tmp items")
            case (Inl e)
            with assms opened members found stream temp show ?thesis
              by (simp add: convert_def fails_def)
          next
            case pass: (Inr st)
            show ?thesis
            proof (cases "appDirPrefix st = []")
              case True
              with assms opened members found stream temp pass show ?thesis
                by (simp add: convert_def fails_def)
            next
              case False
              with opened members found stream temp pass
              have c: "convert E debPath = package E debPath st"
                by (simp add: convert_def)
              with assms have "pack_files E (filepath_ToSlash (appDirPrefix st)) (app_folder st)
                  (executableName (app_metadata E st)) (disk st) (files st)
                = (failure (convert E debPath), es)"
                by (simp add: package_written)
              with opened members found stream temp pass False show ?thesis
                by blast
            qed
          qed
        qed
      qed
    qed
  qed
qed

section \<open>The external attributes\<close>

text \<open>
  Claim C2. For every entry written to the output archive, the external attributes
  are the type bits or-ed with the permission bits of the permission algebra, shifted
  left by 16: the shift loses no bit in 32 bits (shifting back gives the two fields
  again) and the low 16 bits are zero. The type bits are those of the entry's kind,
  for each of the three kinds.
\<close>

theorem external_attrs_encoding:
  assumes "pack_files E cp an ex dsk fs = (err, es)" and "e \<in> set es"
  shows "\<exists>vf \<in> set fs. \<exists>m t pm.
           zip_Name (header e) = final_path cp an vf
         \<and> permission_fix vf (final_path cp an vf) ex = (m, t, pm)
         \<and> t = (if IsLink vf then 0xA000 else if IsDir vf then 0x4000 else 0x8000)
         \<and> ExternalAttrs (header e) = push_bit 16 (t OR pm)
         \<and> drop_bit 16 (ExternalAttrs (header e)) = t OR pm
         \<and> take_bit 16 (ExternalAttrs (header e)) = 0"
proof -
  from emitted_from_file [OF assms] obtain vf where vf: "vf \<in> set fs"
    and e: "e = emit cp an ex dsk vf" by blast
  obtain m t pm where pf: "permission_fix vf (final_path cp an vf) ex = (m, t, pm)"
    by (cases "permission_fix vf (final_path cp an vf) ex") auto
  have hd: "header e = build_header cp an ex vf"
    by (simp add: e emit_def)
  have "drop_bit 16 (push_bit 16 (t OR pm)) = t OR pm"
    by (rule low16_shift_back) (rule permission_fix_low16 [OF pf])
  moreover have "take_bit 16 (push_bit 16 (t OR pm)) = 0"
    by (simp add: take_bit_push_bit)
  ultimately show ?thesis
    using vf pf permission_fix_type [OF pf] build_header_fields [OF pf] hd
    by (intro bexI [of _ vf] exI [of _ m] exI [of _ t] exI [of _ pm]) simp_all
qed

text \<open>The main executable of the sample files: a regular file, 0755, \<open>0x81ED0000\<close>.\<close>

theorem external_attrs_encoding_witness:
  "\<exists>vf \<in> set sample_files. \<exists>m t pm.
       ''Payload/Foo.app/Foo'' = final_path ''./Foo.app/'' ''Foo.app'' vf
     \<and> permission_fix vf (final_path ''./Foo.app/'' ''Foo.app'' vf) ''Foo'' = (m, t, pm)
     \<and> t = (if IsLink vf then 0xA000 else if IsDir vf then 0x4000 else 0x8000)
     \<and> (0x81ED0000 :: uint32) = push_bit 16 (t OR pm)
     \<and> drop_bit 16 (0x81ED0000 :: uint32) = t OR pm
     \<and> take_bit 16 (0x81ED0000 :: uint32) = 0"
proof -
  define e where "e = emit ''./Foo.app/'' ''Foo.app'' ''Foo'' (\<lambda>p. None) (sample_files ! 1)"
  have run: "pack_files (sample_env ''data.tar.gz'') ''./Foo.app/'' ''Foo.app'' ''Foo'' (\<lambda>p. None)
      sample_files = (None, map (emit ''./Foo.app/'' ''Foo.app'' ''Foo'' (\<lambda>p. None)) (take 3 sample_files))"
    by code_simp
  have mem: "e \<in> set (map (emit ''./Foo.app/'' ''Foo.app'' ''Foo'' (\<lambda>p. None)) (take 3 sample_files))"
    unfolding e_def by code_simp
  have n: "zip_Name (header e) = ''Payload/Foo.app/Foo''"
    unfolding e_def by code_simp
  have a: "ExternalAttrs (header e) = 0x81ED0000"
    unfolding e_def by code_simp
  show ?thesis
    using external_attrs_encoding [OF run mem] unfolding n a .
qed

section \<open>The permission algebra\<close>

lemma permission_fix_algebra:
  "permission_fix vf fp ex =
     (case permission_algebra (kind_of vf) (ucast (Mode vf) AND 0x1FF) (path_Base fp = ex) fp of
        (t, pm, m) \<Rightarrow> (m, t, pm))"
  by (simp add: permission_fix_def permission_algebra_def kind_of_def Let_def)

text \<open>
  Claim C1, amended. For every entry written to the output archive, the type bits,
  the permission bits and the compression method are the permission algebra of the
  entry's kind, of the nine permission bits of its source mode (the mode and 0777),
  of whether the base name of its output path is the executable's name, and of its
  output path. Where the claim says "source mode if nonzero", the code takes the
  mode and 0777, and tests that for zero.
\<close>

theorem permission_algebra_of_entries:
  assumes "pack_files E cp an ex dsk fs = (err, es)" and "e \<in> set es"
  shows "\<exists>vf \<in> set fs. \<exists>t pm.
           zip_Name (header e) = final_path cp an vf
         \<and> permission_fix vf (zip_Name (header e)) ex = (Method (header e), t, pm)
         \<and> ExternalAttrs (header e) = push_bit 16 (t OR pm)
         \<and> permission_algebra (kind_of vf) (ucast (Mode vf) AND 0x1FF)
              (path_Base (zip_Name (header e)) = ex) (zip_Name (header e))
            = (t, pm, Method (header e))"
proof -
  from emitted_from_file [OF assms] obtain vf where vf: "vf \<in> set fs"
    and e: "e = emit cp an ex dsk vf" by blast
  obtain m t pm where pf: "permission_fix vf (final_path cp an vf) ex = (m, t, pm)"
    by (cases "permission_fix vf (final_path cp an vf) ex") auto
  have hd: "header e = build_header cp an ex vf"
    by (simp add: e emit_def)
  have alg: "permission_algebra (kind_of vf) (ucast (Mode vf) AND 0x1FF)
      (path_Base (final_path cp an vf) = ex) (final_path cp an vf) = (t, pm, m)"
    using pf unfolding permission_fix_algebra by (auto split: prod.splits)
  show ?thesis
    using vf pf alg build_header_fields [OF pf] hd
    by (intro bexI [of _ vf] exI [of _ t] exI [of _ pm]) simp_all
qed

theorem permission_algebra_of_entries_witness:
  "\<exists>vf \<in> set sample_files. \<exists>t pm.
       ''Payload/Foo.app/'' = final_path ''./Foo.app/'' ''Foo.app'' vf
     \<and> permission_fix vf ''Payload/Foo.app/'' ''Foo'' = (zip_Store, t, pm)
     \<and> (0x41ED0000 :: uint32) = push_bit 16 (t OR pm)
     \<and> permission_algebra (kind_of vf) (ucast (Mode vf) AND 0x1FF)
          (path_Base ''Payload/Foo.app/'' = ''Foo'') ''Payload/Foo.app/'' = (t, pm, zip_Store)"
proof -
  define e where "e = emit ''./Foo.app/'' ''Foo.app'' ''Foo'' (\<lambda>p. None) (sample_files ! 0)"
  have run: "pack_files (sample_env ''data.tar.gz'') ''./Foo.app/'' ''Foo.app'' ''Foo'' (\<lambda>p. None)
      sample_files = (None, map (emit ''./Foo.app/'' ''Foo.app'' ''Foo'' (\<lambda>p. None)) (take 3 sample_files))"
    by code_simp
  have mem: "e \<in> set (map (emit ''./Foo.app/'' ''Foo.app'' ''Foo'' (\<lambda>p. None)) (take 3 sample_files))"
    unfolding e_def by code_simp
  have n: "zip_Name (header e) = ''Payload/Foo.app/''"
    unfolding e_def by code_simp
  have a: "ExternalAttrs (header e) = 0x41ED0000"
    unfolding e_def by code_simp
  have m: "Method (header e) = zip_Store"
    unfolding e_def by code_simp
  show ?thesis
    using permission_algebra_of_entries [OF run mem] unfolding n a m .
qed

text \<open>
  Claim C1 as stated, with the source mode itself as the permission bits, fails on a
  regular file of mode 04755 (\<open>0x9ED\<close>): the code gives the permission bits 0755,
  the stated algebra gives 04755.
\<close>

theorem permission_algebra_counterexample:
  "permission_fix (sample_files ! 3) ''Payload/Bar.app/x'' ''Foo''
     \<noteq> (case permission_algebra (kind_of (sample_files ! 3)) (ucast (Mode (sample_files ! 3)))
              (path_Base ''Payload/Bar.app/x'' = ''Foo'') ''Payload/Bar.app/x'' of
           (t, pm, m) \<Rightarrow> (m, t, pm))"
  by code_simp

section \<open>The path of the output\<close>

lemma ipa_path_eq: "ipa_path debPath =
      (if strings_HasSuffix debPath ''.deb'' then take (length debPath - 4) debPath else debPath) @ ''.ipa''"
  by (simp add: ipa_path_def strings_TrimSuffix_def numeral_eq_Suc)

lemma package_ipa: "ipa (package E debPath st) = Some (p, es) \<Longrightarrow> p = ipa_path debPath"
  by (auto simp add: package_def fails_def Let_def split: if_splits prod.splits)

lemma package_failure_indep:
  "os_Create E (ipa_path q) = os_Create E (ipa_path p) \<Longrightarrow>
   failure (package E q st) = failure (package E p st)"
  by (simp add: package_def Let_def fails_def split: prod.splits)

text \<open>Up to packaging, a run depends on the input path through \<open>os.Open\<close> only.\<close>

lemma convert_normal_form:
  "\<exists>r. \<forall>p. os_Open E p = os_Open E debPath \<longrightarrow>
     convert E p = (case r of Inl e \<Rightarrow> fails e | Inr st \<Rightarrow> package E p st)"
proof (cases "os_Open E debPath")
  case None
  then show ?thesis
    by (intro exI [of _ "Inl OpenError"]) (simp add: convert_def)
next
  case opened: (Some f)
  show ?thesis
  proof (cases "ar_NewReader E f")
    case None
    with opened show ?thesis
      by (intro exI [of _ "Inl ContainerFormatError"]) (simp add: convert_def)
  next
    case members: (Some ms)
    show ?thesis
    proof (cases "find_dataTar E ms")
      case (Inl e)
      with opened members show ?thesis
        by (intro exI [of _ "Inl e"]) (simp add: convert_def)
    next
      case found: (Inr r)
      show ?thesis
      proof (cases r)
        case None
        with opened members found show ?thesis
          by (intro exI [of _ "Inl MissingPayloadMember"]) (simp add: convert_def)
      next
        case stream: (Some items)
        show ?thesis
        proof (cases "os_MkdirTemp E")
          case None
          with opened members found stream show ?thesis
            by (intro exI [of _ "Inl TempDirError"]) (simp add: convert_def)
        next
          case temp: (Some tmp)
          show ?thesis
          proof (cases "extraction E tmp items")
            case (Inl e)
            with opened members found stream temp show ?thesis
              by (intro exI [of _ "Inl e"]) (simp add: convert_def)
          next
            case pass: (Inr st)
            show ?thesis
            proof (cases "appDirPrefix st = []")
              case True
              with opened members found stream temp pass show ?thesis
                by (intro exI [of _ "Inl AppRootNotFound"]) (simp add: convert_def)
            next
              case False
              with opened members found stream temp pass show ?thesis
                by (intro exI [of _ "Inr st"]) (simp add: convert_def)
            qed
          qed
        qed
      qed
    qed
  qed
qed

lemma convert_ipa_path:
  assumes "ipa (convert E debPath) = Some (p, es)"
  shows "p = ipa_path debPath"
proof -
  from convert_normal_form [of E debPath] obtain r
    where "convert E debPath = (case r of Inl e \<Rightarrow> fails e | Inr st \<Rightarrow> package E debPath st)"
    by blast
  with assms show ?thesis
    by (cases r) (simp_all add: fails_def package_ipa)
qed

lemma convert_failure_indep:
  assumes "os_Open E q = os_Open E debPath"
    and "os_Create E (ipa_path q) = os_Create E (ipa_path debPath)"
  shows "failure (convert E q) = failure (convert E debPath)"
proof -
  from convert_normal_form [of E debPath] obtain r
    where r: "\<forall>p. os_Open E p = os_Open E debPath \<longrightarrow>
     convert E p = (case r of Inl e \<Rightarrow> fails e | Inr st \<Rightarrow> package E p st)"
    by blast
  from r assms(1) have "convert E q = (case r of Inl e \<Rightarrow> fails e | Inr st \<Rightarrow> package E q st)"
    by blast
  moreover from r
  have "convert E debPath = (case r of Inl e \<Rightarrow> fails e | Inr st \<Rightarrow> package E debPath st)"
    by blast
  ultimately show ?thesis
    using package_failure_indep [OF assms(2)] by (cases r) simp_all
qed

text \<open>
  Claim C10. The output path is the input path without one trailing \<open>.deb\<close>, if it
  has one, followed by \<open>.ipa\<close>; whenever a run creates the output file, it is at
  that path; an input path that does not end in \<open>.deb\<close> gets \<open>.ipa\<close> appended;
  and the error a run returns depends on the input path only through what opening
  it and creating the output give, not on its suffix.
\<close>

theorem output_path_of_input:
  "ipa_path debPath =
     (if strings_HasSuffix debPath ''.deb'' then take (length debPath - 4) debPath else debPath)
     @ ''.ipa''
   \<and> (\<forall>p es. ipa (convert E debPath) = Some (p, es) \<longrightarrow> p = ipa_path debPath)
   \<and> (\<not> strings_HasSuffix debPath ''.deb'' \<longrightarrow> ipa_path debPath = debPath @ ''.ipa'')
   \<and> (\<forall>q. os_Open E q = os_Open E debPath
          \<and> os_Create E (ipa_path q) = os_Create E (ipa_path debPath)
        \<longrightarrow> failure (convert E q) = failure (convert E debPath))"
proof (intro conjI allI impI)
  show "ipa_path debPath =
     (if strings_HasSuffix debPath ''.deb'' then take (length debPath - 4) debPath else debPath)
     @ ''.ipa''"
    by (rule ipa_path_eq)
  show "p = ipa_path debPath" if "ipa (convert E debPath) = Some (p, es)" for p es
    using that by (rule convert_ipa_path)
  show "ipa_path debPath = debPath @ ''.ipa''" if "\<not> strings_HasSuffix debPath ''.deb''"
    using that by (simp add: ipa_path_eq)
  show "failure (convert E q) = failure (convert E debPath)"
    if "os_Open E q = os_Open E debPath
          \<and> os_Create E (ipa_path q) = os_Create E (ipa_path debPath)" for q
    using that convert_failure_indep [of E q debPath] by blast
qed

theorem output_path_of_input_witness:
  "ipa_path ''pkg'' = ''pkg.ipa''
   \<and> map_option fst (ipa (convert (sample_env ''data.tar.gz'') ''pkg'')) = Some ''pkg.ipa''
   \<and> failure (convert (sample_env ''data.tar.gz'') ''pkg'') = None
   \<and> failure (convert (sample_env ''data.tar.gz'') ''pkg.deb'') = None"
proof -
  have nodeb: "\<not> strings_HasSuffix ''pkg'' ''.deb''"
    by code_simp
  have made: "ipa (convert (sample_env ''data.tar.gz'') ''pkg'') \<noteq> None"
    by code_simp
  have ok: "failure (convert (sample_env ''data.tar.gz'') ''pkg'') = None"
    by code_simp
  have same: "os_Open (sample_env ''data.tar.gz'') ''pkg.deb'' = os_Open (sample_env ''data.tar.gz'') ''pkg''
     \<and> os_Create (sample_env ''data.tar.gz'') (ipa_path ''pkg.deb'')
       = os_Create (sample_env ''data.tar.gz'') (ipa_path ''pkg'')"
    by (simp add: sample_env_def)
  from output_path_of_input [of "''pkg''" "sample_env ''data.tar.gz''"] nodeb
  have at: "\<forall>p es. ipa (convert (sample_env ''data.tar.gz'') ''pkg'') = Some (p, es)
      \<longrightarrow> p = ipa_path ''pkg''"
    and app: "ipa_path ''pkg'' = ''pkg'' @ ''.ipa''"
    and ind: "\<forall>q. os_Open (sample_env ''data.tar.gz'') q = os_Open (sample_env ''data.tar.gz'') ''pkg''
          \<and> os_Create (sample_env ''data.tar.gz'') (ipa_path q)
            = os_Create (sample_env ''data.tar.gz'') (ipa_path ''pkg'')
        \<longrightarrow> failure (convert (sample_env ''data.tar.gz'') q)
            = failure (convert (sample_env ''data.tar.gz'') ''pkg'')"
    by blast+
  from made obtain p es where some: "ipa (convert (sample_env ''data.tar.gz'') ''pkg'') = Some (p, es)"
    by (cases "ipa (convert (sample_env ''data.tar.gz'') ''pkg'')") auto
  with at have "p = ipa_path ''pkg''" by blast
  with some app have "map_option fst (ipa (convert (sample_env ''data.tar.gz'') ''pkg'')) = Some ''pkg.ipa''"
    by simp
  moreover from ind same ok have "failure (convert (sample_env ''data.tar.gz'') ''pkg.deb'') = None"
    by metis
  ultimately show ?thesis
    using app ok by simp
qed

section \<open>Compression dispatch\<close>

lemma find_dataTar_skips:
  assumes "\<forall>m \<in> set pre. \<exists>n b. m = ArMember n b \<and> \<not> strings_HasPrefix n ''data.tar''"
  shows "find_dataTar E (pre @ rest) = find_dataTar E rest"
  using assms
proof (induction pre)
  case Nil
  then show ?case by simp
next
  case (Cons m pre)
  then obtain n b where "m = ArMember n b" and "\<not> strings_HasPrefix n ''data.tar''"
    by auto
  with Cons show ?case by simp
qed

lemma HasSuffix_last: "strings_HasSuffix s suf \<Longrightarrow> suf \<noteq> [] \<Longrightarrow> s \<noteq> [] \<and> last s = last suf"
proof -
  assume a: "strings_HasSuffix s suf" and b: "suf \<noteq> []"
  then have "s = take (length s - length suf) s @ suf"
    by (metis append_take_drop_id strings_HasSuffix_def)
  with b show ?thesis
    by (metis Nil_is_append_conv last_appendR)
qed

lemma dispatch_member:
  assumes "strings_HasPrefix name ''data.tar''"
  shows "find_dataTar E (ArMember name payload # post) =
     (case codec_of name of
        None \<Rightarrow> Inl (UnsupportedCompressionKind name)
      | Some c \<Rightarrow>
          (case NewReader E c payload of
             TarStream s \<Rightarrow> Inr (Some s)
           | InitError \<Rightarrow> if c = Bzip2 then Inr (Some [TarError]) else Inl DecompressionInitError))"
proof -
  have "\<not> (strings_HasSuffix name ''.lzma'' \<and> strings_HasSuffix name ''.xz'')"
    using HasSuffix_last [of name "''.lzma''"] HasSuffix_last [of name "''.xz''"] by auto
  moreover have "\<not> (strings_HasSuffix name ''.bzip2'' \<and> strings_HasSuffix name ''.xz'')"
    using HasSuffix_last [of name "''.bzip2''"] HasSuffix_last [of name "''.xz''"] by auto
  ultimately show ?thesis
    using assms by (auto simp add: codec_of_def split: decoder.splits)
qed

text \<open>
  Claim C6. Let the payload member be the first member of the container whose name
  begins with \<open>data.tar\<close>, with no read error before it. The decoder is chosen by
  the suffix of its name, among \<open>.gz\<close>, \<open>.xz\<close>, \<open>.lzma\<close> and \<open>.bzip2\<close>. With any
  other suffix, or none, the run fails with \<open>UnsupportedCompressionKind\<close> and
  creates no output file.
\<close>

theorem compression_dispatch:
  assumes "os_Open E debPath = Some f"
    and "ar_NewReader E f = Some (pre @ ArMember name payload # post)"
    and "\<forall>m \<in> set pre. \<exists>n b. m = ArMember n b \<and> \<not> strings_HasPrefix n ''data.tar''"
    and "strings_HasPrefix name ''data.tar''"
  shows "(codec_of name = None \<longleftrightarrow>
            \<not> (strings_HasSuffix name ''.gz'' \<or> strings_HasSuffix name ''.xz''
               \<or> strings_HasSuffix name ''.lzma'' \<or> strings_HasSuffix name ''.bzip2''))
       \<and> (codec_of name = None \<longrightarrow>
            convert E debPath = \<lparr>failure = Some (UnsupportedCompressionKind name), ipa = None\<rparr>)
       \<and> (\<forall>c. codec_of name = Some c \<longrightarrow>
            strings_HasSuffix name (case c of Gzip \<Rightarrow> ''.gz'' | Xz \<Rightarrow> ''.xz''
               | Lzma \<Rightarrow> ''.lzma'' | Bzip2 \<Rightarrow> ''.bzip2'')
          \<and> find_dataTar E (pre @ ArMember name payload # post) =
              (case NewReader E c payload of
                 TarStream s \<Rightarrow> Inr (Some s)
               | InitError \<Rightarrow>
                   if c = Bzip2 then Inr (Some [TarError]) else Inl DecompressionInitError))"
proof -
  have found: "find_dataTar E (pre @ ArMember name payload # post) =
     (case codec_of name of
        None \<Rightarrow> Inl (UnsupportedCompressionKind name)
      | Some c \<Rightarrow>
          (case NewReader E c payload of
             TarStream s \<Rightarrow> Inr (Some s)
           | InitError \<Rightarrow> if c = Bzip2 then Inr (Some [TarError]) else Inl DecompressionInitError))"
    using find_dataTar_skips [OF assms(3)] dispatch_member [OF assms(4)] by simp
  have one: "codec_of name = None \<longleftrightarrow>
            \<not> (strings_HasSuffix name ''.gz'' \<or> strings_HasSuffix name ''.xz''
               \<or> strings_HasSuffix name ''.lzma'' \<or> strings_HasSuffix name ''.bzip2'')"
    by (simp add: codec_of_def)
  have two: "convert E debPath = \<lparr>failure = Some (UnsupportedCompressionKind name), ipa = None\<rparr>"
    if "codec_of name = None"
    using that found assms(1,2) by (simp add: convert_def fails_def)
  have three: "strings_HasSuffix name (case c of Gzip \<Rightarrow> ''.gz'' | Xz \<Rightarrow> ''.xz''
               | Lzma \<Rightarrow> ''.lzma'' | Bzip2 \<Rightarrow> ''.bzip2'')" if "codec_of name = Some c" for c
    using that by (auto simp add: codec_of_def split: if_splits)
  show ?thesis
    using one two three found by simp
qed

theorem compression_dispatch_witness:
  "codec_of ''data.tar.zst'' = None
   \<and> convert (sample_env ''data.tar.zst'') ''pkg.deb''
       = \<lparr>failure = Some (UnsupportedCompressionKind ''data.tar.zst''), ipa = None\<rparr>"
proof -
  have a: "os_Open (sample_env ''data.tar.zst'') ''pkg.deb'' = Some ''!<arch>''"
    by (simp add: sample_env_def)
  have b: "ar_NewReader (sample_env ''data.tar.zst'') ''!<arch>''
      = Some ([ArMember ''debian-binary'' ''2.0''] @ ArMember ''data.tar.zst'' ''z'' # [])"
    by (simp add: sample_env_def)
  have c: "\<forall>m \<in> set [ArMember ''debian-binary'' ''2.0''].
      \<exists>n b. m = ArMember n b \<and> \<not> strings_HasPrefix n ''data.tar''"
    by (simp add: strings_HasPrefix_def)
  have d: "strings_HasPrefix ''data.tar.zst'' ''data.tar''"
    by (simp add: strings_HasPrefix_def)
  have e: "codec_of ''data.tar.zst'' = None"
    by code_simp
  from compression_dispatch [OF a b c d] e show ?thesis
    by blast
qed

section \<open>The metadata parser\<close>

lemma key_loop_foldl:
  "key_loop i keys strs m = foldl (\<lambda>m kv. set_key (fst kv) (snd kv) m) m (drop i (zip keys strs))"
proof (induction i keys strs m rule: key_loop.induct)
  case (1 i keys strs m)
  show ?case
  proof (cases "i < length keys \<and> i < length strs")
    case True
    then have "i < length (zip keys strs)"
      by simp
    then have "drop i (zip keys strs) = zip keys strs ! i # drop (Suc i) (zip keys strs)"
      by (rule Cons_nth_drop_Suc [symmetric])
    moreover have "zip keys strs ! i = (keys ! i, strs ! i)"
      using True by simp
    ultimately have "drop i (zip keys strs) = (keys ! i, strs ! i) # drop (i + 1) (zip keys strs)"
      by simp
    with True "1.IH" show ?thesis
      by (simp add: key_loop.simps [of i])
  next
    case False
    then have "drop i (zip keys strs) = []" by auto
    with False show ?thesis
      by (auto simp add: key_loop.simps [of i])
  qed
qed

lemma last_value_Cons:
  "last_value ks (kv # pairs) d = last_value ks pairs (if fst kv \<in> set ks then snd kv else d)"
  by (simp add: last_value_def split: list.splits)

lemma foldl_set_key:
  "foldl (\<lambda>m kv. set_key (fst kv) (snd kv) m) m pairs =
     \<lparr>executableName = last_value [''CFBundleExecutable''] pairs (executableName m),
      bundleID = last_value [''CFBundleIdentifier''] pairs (bundleID m),
      version = last_value [''CFBundleVersion'', ''CFBundleShortVersionString''] pairs (version m)\<rparr>"
proof (induction pairs arbitrary: m)
  case Nil
  then show ?case by (simp add: last_value_def)
next
  case (Cons kv pairs)
  show ?case
    unfolding foldl_Cons Cons.IH last_value_Cons
    by (simp add: set_key_def Let_def)
qed

lemma key_loop_spec: "key_loop 0 keys strs default_metadata = metadata_of_lists keys strs"
  by (simp add: key_loop_foldl foldl_set_key metadata_of_lists_def default_metadata_def)

lemma parse_plist_spec:
  "parse_plist E info =
     (case info of
        None \<Rightarrow> default_metadata
      | Some d \<Rightarrow>
          if d = [] then default_metadata
          else (case xml_Unmarshal E d of
                  None \<Rightarrow> default_metadata
                | Some plist \<Rightarrow> metadata_of_lists (Keys (Dict plist)) (String (Dict plist))))"
  by (simp add: parse_plist_def len_def key_loop_spec split: option.splits)

lemma TrimSuffix_append: "strings_TrimSuffix (b @ suf) suf = b"
  by (simp add: strings_TrimSuffix_def strings_HasSuffix_def)

lemma TrimSuffix_other: "\<not> strings_HasSuffix s suf \<Longrightarrow> strings_TrimSuffix s suf = s"
  by (simp add: strings_TrimSuffix_def)

text \<open>
  Claim C7. The loop over the keys computes the metadata of the two lists: the i-th
  key paired with the i-th string, pairs beyond the shorter list ignored, each field
  the value of the last pair whose key sets it, or its default (the empty name,
  \<open>Unknown\<close>, \<open>Unknown\<close>). No descriptor, an empty one or one that does not decode
  leave the defaults. An empty executable name becomes the base name of the app
  folder without a trailing \<open>.app\<close>; the other two fields are unchanged.
\<close>

theorem metadata_parser:
  "key_loop 0 keys strs default_metadata = metadata_of_lists keys strs
   \<and> default_metadata = \<lparr>executableName = [], bundleID = ''Unknown'', version = ''Unknown''\<rparr>
   \<and> parse_plist E info =
       (case info of
          None \<Rightarrow> default_metadata
        | Some d \<Rightarrow>
            if d = [] then default_metadata
            else (case xml_Unmarshal E d of
                    None \<Rightarrow> default_metadata
                  | Some plist \<Rightarrow> metadata_of_lists (Keys (Dict plist)) (String (Dict plist))))
   \<and> executableName (app_metadata E st) =
       (if executableName (parse_plist E (infoPlistData st)) = []
        then strings_TrimSuffix (path_Base (appDirPrefix st)) ''.app''
        else executableName (parse_plist E (infoPlistData st)))
   \<and> bundleID (app_metadata E st) = bundleID (parse_plist E (infoPlistData st))
   \<and> version (app_metadata E st) = version (parse_plist E (infoPlistData st))
   \<and> (\<forall>b. strings_TrimSuffix (b @ ''.app'') ''.app'' = b)
   \<and> (\<forall>s. \<not> strings_HasSuffix s ''.app'' \<longrightarrow> strings_TrimSuffix s ''.app'' = s)"
proof (intro conjI allI impI)
  show "key_loop 0 keys strs default_metadata = metadata_of_lists keys strs"
    by (rule key_loop_spec)
  show "default_metadata = \<lparr>executableName = [], bundleID = ''Unknown'', version = ''Unknown''\<rparr>"
    by (rule default_metadata_def)
  show "parse_plist E info =
       (case info of
          None \<Rightarrow> default_metadata
        | Some d \<Rightarrow>
            if d = [] then default_metadata
            else (case xml_Unmarshal E d of
                    None \<Rightarrow> default_metadata
                  | Some plist \<Rightarrow> metadata_of_lists (Keys (Dict plist)) (String (Dict plist))))"
    by (rule parse_plist_spec)
  show "executableName (app_metadata E st) =
       (if executableName (parse_plist E (infoPlistData st)) = []
        then strings_TrimSuffix (path_Base (appDirPrefix st)) ''.app''
        else executableName (parse_plist E (infoPlistData st)))"
    by (simp add: app_metadata_def fallback_name_def app_folder_def filepath_ToSlash_def
        filepath_Separator_def)
  show "bundleID (app_metadata E st) = bundleID (parse_plist E (infoPlistData st))"
    by (simp add: app_metadata_def fallback_name_def)
  show "version (app_metadata E st) = version (parse_plist E (infoPlistData st))"
    by (simp add: app_metadata_def fallback_name_def)
  show "strings_TrimSuffix (b @ ''.app'') ''.app'' = b" for b
    by (rule TrimSuffix_append)
  show "strings_TrimSuffix s ''.app'' = s" if "\<not> strings_HasSuffix s ''.app''" for s
    using that by (rule TrimSuffix_other)
qed

theorem metadata_parser_witness:
  "key_loop 0 [''CFBundleExecutable'', ''CFBundleIdentifier''] [''Foo'', ''com.example.foo'']
       default_metadata
     = \<lparr>executableName = ''Foo'', bundleID = ''com.example.foo'', version = ''Unknown''\<rparr>
   \<and> key_loop 0 [''CFBundleVersion'', ''CFBundleShortVersionString'', ''CFBundleVersion'', ''Extra'']
       [''1'', ''2'', ''3''] default_metadata
     = \<lparr>executableName = [], bundleID = ''Unknown'', version = ''3''\<rparr>
   \<and> executableName (app_metadata (sample_env ''data.tar.gz'')
        (init_state\<lparr>appDirPrefix := ''./Bar.app/''\<rparr>)) = ''Bar''"
proof -
  have a: "metadata_of_lists [''CFBundleExecutable'', ''CFBundleIdentifier'']
      [''Foo'', ''com.example.foo'']
     = \<lparr>executableName = ''Foo'', bundleID = ''com.example.foo'', version = ''Unknown''\<rparr>"
    by code_simp
  have b: "metadata_of_lists
      [''CFBundleVersion'', ''CFBundleShortVersionString'', ''CFBundleVersion'', ''Extra'']
      [''1'', ''2'', ''3'']
     = \<lparr>executableName = [], bundleID = ''Unknown'', version = ''3''\<rparr>"
    by code_simp
  have c: "executableName (parse_plist (sample_env ''data.tar.gz'')
      (infoPlistData (init_state\<lparr>appDirPrefix := ''./Bar.app/''\<rparr>))) = []"
    by code_simp
  have d: "strings_TrimSuffix (path_Base (appDirPrefix (init_state\<lparr>appDirPrefix := ''./Bar.app/''\<rparr>)))
      ''.app'' = ''Bar''"
    by code_simp
  show ?thesis
    using metadata_parser [of "[''CFBundleExecutable'', ''CFBundleIdentifier'']"
        "[''Foo'', ''com.example.foo'']" "sample_env ''data.tar.gz''" None
        "init_state\<lparr>appDirPrefix := ''./Bar.app/''\<rparr>"]
      metadata_parser [of "[''CFBundleVersion'', ''CFBundleShortVersionString'', ''CFBundleVersion'', ''Extra'']"
        "[''1'', ''2'', ''3'']" "sample_env ''data.tar.gz''" None init_state]
      a b c d
    by simp
qed

section \<open>The extraction pass\<close>

lemma type_flags_distinct:
  "tar_TypeReg \<noteq> tar_TypeSymlink" "tar_TypeReg \<noteq> tar_TypeDir" "tar_TypeDir \<noteq> tar_TypeSymlink"
  by (simp_all add: tar_TypeReg_def tar_TypeSymlink_def tar_TypeDir_def)

lemma tar_loop_append:
  "tar_loop E t st (xs @ ys) =
     (case tar_loop E t st xs of Inl e \<Rightarrow> Inl e | Inr st1 \<Rightarrow> tar_loop E t st1 ys)"
  by (induction xs arbitrary: st) (simp_all split: sum.splits)

lemma tar_loop_split:
  assumes "tar_loop E t st (before @ item # after) = Inr st'"
  obtains s0 s1 where "tar_loop E t st before = Inr s0" and "tar_step E t s0 item = Inr s1"
    and "tar_loop E t s1 after = Inr st'"
proof -
  from assms obtain s0 where a: "tar_loop E t st before = Inr s0"
    and b: "tar_loop E t s0 (item # after) = Inr st'"
    by (auto simp add: tar_loop_append split: sum.splits)
  from b obtain s1 where "tar_step E t s0 item = Inr s1" and "tar_loop E t s1 after = Inr st'"
    by (auto split: sum.splits)
  with a that show thesis by blast
qed

lemma tar_step_no_error_item: "tar_step E t st item = Inr st' \<Longrightarrow> item \<noteq> TarError"
  by auto

lemma tar_step_appDirPrefix:
  "tar_step E t st (TarEntry h c rf) = Inr st' \<Longrightarrow>
     appDirPrefix st' = detect_app (appDirPrefix st) (hdr_Name h)"
  by (auto simp add: Let_def split: if_splits)

lemma tar_loop_appDirPrefix:
  "tar_loop E t st items = Inr st' \<Longrightarrow>
     appDirPrefix st' = foldl detect_app (appDirPrefix st) (map hdr_Name (entry_headers items))"
proof (induction items arbitrary: st)
  case Nil
  then show ?case by simp
next
  case (Cons item items)
  from Cons.prems obtain s1 where s1: "tar_step E t st item = Inr s1"
    and rest: "tar_loop E t s1 items = Inr st'"
    by (auto split: sum.splits)
  from s1 obtain h c rf where item: "item = TarEntry h c rf"
    by (cases item) auto
  from Cons.IH [OF rest] tar_step_appDirPrefix [OF s1 [unfolded item]] item
  show ?case by simp
qed

lemma entry_headers_append: "entry_headers (xs @ ys) = entry_headers xs @ entry_headers ys"
  by (induction xs rule: entry_headers.induct) simp_all

subsection \<open>\<open>strings.Index\<close> finds the first occurrence\<close>

lemma HasPrefix_iff: "strings_HasPrefix s pre \<longleftrightarrow> (\<exists>post. s = pre @ post)"
proof
  assume "strings_HasPrefix s pre"
  then have "s = pre @ drop (length pre) s"
    by (metis append_take_drop_id strings_HasPrefix_def)
  then show "\<exists>post. s = pre @ post" ..
next
  assume "\<exists>post. s = pre @ post"
  then show "strings_HasPrefix s pre"
    by (auto simp add: strings_HasPrefix_def)
qed

lemma strings_Index_first:
  "(strings_Index s sub = -1 \<and> (\<forall>pre post. s \<noteq> pre @ sub @ post)) \<or>
   (\<exists>pre post. s = pre @ sub @ post \<and> strings_Index s sub = int (length pre)
      \<and> (\<forall>pre' post'. s = pre' @ sub @ post' \<longrightarrow> length pre \<le> length pre'))"
proof (induction s)
  case Nil
  show ?case
  proof (cases "sub = []")
    case True
    then show ?thesis by simp
  next
    case False
    then show ?thesis by simp
  qed
next
  case (Cons c s)
  show ?case
  proof (cases "strings_HasPrefix (c # s) sub")
    case True
    then obtain post where "c # s = [] @ sub @ post"
      by (auto simp add: HasPrefix_iff)
    moreover from True have "strings_Index (c # s) sub = int (length ([] :: string))"
      by simp
    ultimately show ?thesis
      by (metis le0 list.size(3))
  next
    case False
    have shift: "\<exists>p. pre' = c # p \<and> s = p @ sub @ post'" if "c # s = pre' @ sub @ post'" for pre' post'
    proof (cases pre')
      case Nil
      with that False show ?thesis by (simp add: HasPrefix_iff)
    next
      case (Cons a p)
      with that show ?thesis by simp
    qed
    from Cons.IH show ?thesis
    proof
      assume none: "strings_Index s sub = -1 \<and> (\<forall>pre post. s \<noteq> pre @ sub @ post)"
      with False have "strings_Index (c # s) sub = -1" by simp
      moreover from none shift have "\<forall>pre post. c # s \<noteq> pre @ sub @ post" by blast
      ultimately show ?thesis by blast
    next
      assume "\<exists>pre post. s = pre @ sub @ post \<and> strings_Index s sub = int (length pre)
        \<and> (\<forall>pre' post'. s = pre' @ sub @ post' \<longrightarrow> length pre \<le> length pre')"
      then obtain pre post where s: "s = pre @ sub @ post"
        and i: "strings_Index s sub = int (length pre)"
        and least: "\<forall>pre' post'. s = pre' @ sub @ post' \<longrightarrow> length pre \<le> length pre'"
        by blast
      from s have "c # s = (c # pre) @ sub @ post" by simp
      moreover from False i have "strings_Index (c # s) sub = int (length (c # pre))"
        by (simp add: Let_def)
      moreover have "length (c # pre) \<le> length pre'" if "c # s = pre' @ sub @ post'" for pre' post'
        using shift [OF that] least by auto
      ultimately show ?thesis by blast
    qed
  qed
qed

lemma Index_absent: "strings_Index s sub = -1 \<Longrightarrow> \<forall>pre post. s \<noteq> pre @ sub @ post"
  using strings_Index_first [of s sub] by auto

lemma Index_present:
  assumes "strings_Index s sub = int k"
  shows "s = take k s @ sub @ drop (k + length sub) s
     \<and> (\<forall>pre' post'. s = pre' @ sub @ post' \<longrightarrow> k \<le> length pre')"
proof -
  from strings_Index_first [of s sub] assms
  obtain pre post where s: "s = pre @ sub @ post" and k: "k = length pre"
    and least: "\<forall>pre' post'. s = pre' @ sub @ post' \<longrightarrow> length pre \<le> length pre'"
    by auto
  from s k have "take k s = pre" and "drop (k + length sub) s = post"
    by simp_all
  with s k least show ?thesis by simp
qed

lemma detect_app_found: "found \<noteq> [] \<Longrightarrow> detect_app found n = found"
  by (simp add: detect_app_def)

lemma detect_app_none:
  assumes "\<forall>pre post. n \<noteq> pre @ ''.app/'' @ post"
  shows "detect_app [] n = []"
proof -
  from strings_Index_first [of n "''.app/''"] assms have "strings_Index n ''.app/'' = -1"
    by blast
  then show ?thesis
    by (simp add: detect_app_def)
qed

lemma detect_app_first:
  assumes "n = pre @ ''.app/'' @ post"
    and "\<forall>pre' post'. n = pre' @ ''.app/'' @ post' \<longrightarrow> length pre \<le> length pre'"
  shows "detect_app [] n = pre @ ''.app/''"
proof -
  from strings_Index_first [of n "''.app/''"] assms(1)
  obtain pre0 post0 where n0: "n = pre0 @ ''.app/'' @ post0"
    and i: "strings_Index n ''.app/'' = int (length pre0)"
    and least: "\<forall>pre' post'. n = pre' @ ''.app/'' @ post' \<longrightarrow> length pre0 \<le> length pre'"
    by blast
  from assms(2) n0 have "length pre \<le> length pre0"
    by blast
  moreover from least assms(1) have "length pre0 \<le> length pre"
    by blast
  ultimately have "length pre0 = length pre"
    by simp
  moreover from assms(1) n0 have "pre0 @ (''.app/'' @ post0) = pre @ (''.app/'' @ post)"
    by simp
  ultimately have "pre0 = pre"
    using append_eq_append_conv [of pre0 pre "''.app/'' @ post0" "''.app/'' @ post"] by blast
  with i have "strings_Index n ''.app/'' = int (length pre)" by simp
  moreover have "take (length pre + 5) n = pre @ ''.app/''"
    using assms(1) by simp
  ultimately show ?thesis
    by (simp add: detect_app_def Let_def nat_add_distrib)
qed

lemma foldl_detect_app_found: "found \<noteq> [] \<Longrightarrow> foldl detect_app found ns = found"
  by (induction ns) (simp_all add: detect_app_found)

lemma foldl_detect_app_none:
  "\<forall>n \<in> set ns. \<forall>pre post. n \<noteq> pre @ ''.app/'' @ post \<Longrightarrow> foldl detect_app [] ns = []"
  by (induction ns) (simp_all add: detect_app_none)


subsection \<open>The app root\<close>

text \<open>
  Claim C5. After a pass that reaches the end of the stream, the app root is the name
  of the first entry that contains \<open>.app/\<close>, up to and including the first
  occurrence of \<open>.app/\<close> in it, whatever the type of that entry and whatever comes
  after it; it is empty when no entry's name contains \<open>.app/\<close>.
\<close>

theorem app_root_detection:
  assumes "extraction E tmp items = Inr st"
  shows "((\<forall>h \<in> set (entry_headers items). \<forall>pre post. hdr_Name h \<noteq> pre @ ''.app/'' @ post)
            \<longrightarrow> appDirPrefix st = [])
       \<and> (\<forall>before h content rf after pre post.
             items = before @ TarEntry h content rf # after
           \<and> (\<forall>h' \<in> set (entry_headers before). \<forall>pre' post'. hdr_Name h' \<noteq> pre' @ ''.app/'' @ post')
           \<and> hdr_Name h = pre @ ''.app/'' @ post
           \<and> (\<forall>pre' post'. hdr_Name h = pre' @ ''.app/'' @ post' \<longrightarrow> length pre \<le> length pre')
           \<longrightarrow> appDirPrefix st = pre @ ''.app/'')"
proof -
  from assms have fold: "appDirPrefix st = foldl detect_app [] (map hdr_Name (entry_headers items))"
    using tar_loop_appDirPrefix [of E tmp init_state items st]
    by (simp add: extraction_def init_state_def)
  have none: "appDirPrefix st = []"
    if "\<forall>h \<in> set (entry_headers items). \<forall>pre post. hdr_Name h \<noteq> pre @ ''.app/'' @ post"
    unfolding fold using that by (intro foldl_detect_app_none) simp
  have first: "appDirPrefix st = pre @ ''.app/''"
    if split: "items = before @ TarEntry h content rf # after"
      and before: "\<forall>h' \<in> set (entry_headers before). \<forall>pre' post'. hdr_Name h' \<noteq> pre' @ ''.app/'' @ post'"
      and here: "hdr_Name h = pre @ ''.app/'' @ post"
      and least: "\<forall>pre' post'. hdr_Name h = pre' @ ''.app/'' @ post' \<longrightarrow> length pre \<le> length pre'"
    for before h content rf after pre post
  proof -
    have "foldl detect_app [] (map hdr_Name (entry_headers before)) = []"
      using before by (intro foldl_detect_app_none) simp
    moreover have "detect_app [] (hdr_Name h) = pre @ ''.app/''"
      using here least by (rule detect_app_first)
    ultimately show ?thesis
      unfolding fold split by (simp add: entry_headers_append foldl_detect_app_found)
  qed
  show ?thesis
    using none first by blast
qed

theorem app_root_detection_witness:
  "appDirPrefix (projr (extraction (sample_env ''data.tar.gz'') ''/tmp/s'' sample_items)) = ''./Foo.app/''"
proof -
  define before where "before = take 1 sample_items"
  define after where "after = drop 2 sample_items"
  define h where "h = sample_header ''./Foo.app/'' tar_TypeDir 0 0"
  have "\<not> isl (extraction (sample_env ''data.tar.gz'') ''/tmp/s'' sample_items)"
    by code_simp
  then have run: "extraction (sample_env ''data.tar.gz'') ''/tmp/s'' sample_items
    = Inr (projr (extraction (sample_env ''data.tar.gz'') ''/tmp/s'' sample_items))"
    by simp
  have split: "sample_items = before @ TarEntry h [] False # after"
    unfolding before_def after_def h_def by code_simp
  have "strings_Index ''./'' ''.app/'' = -1"
    by code_simp
  then have "\<forall>pre' post'. ''./'' \<noteq> pre' @ ''.app/'' @ post'"
    by (rule Index_absent)
  moreover have "entry_headers before = [sample_header ''./'' tar_TypeDir 0x1ED 0]"
    unfolding before_def by code_simp
  ultimately have b: "\<forall>h' \<in> set (entry_headers before).
      \<forall>pre' post'. hdr_Name h' \<noteq> pre' @ ''.app/'' @ post'"
    by (simp add: sample_header_def)
  have name: "hdr_Name h = ''./Foo.app/''"
    unfolding h_def by (simp add: sample_header_def)
  have "strings_Index ''./Foo.app/'' ''.app/'' = int 5"
    by code_simp
  then have l5: "\<forall>pre' post'. ''./Foo.app/'' = pre' @ ''.app/'' @ post' \<longrightarrow> 5 \<le> length pre'"
    by (rule Index_present [THEN conjunct2])
  have len: "length ''./Foo'' = 5"
    by simp
  have n: "hdr_Name h = ''./Foo'' @ ''.app/'' @ []"
    unfolding name by simp
  have least: "\<forall>pre' post'. hdr_Name h = pre' @ ''.app/'' @ post' \<longrightarrow> length ''./Foo'' \<le> length pre'"
    unfolding name len by (rule l5)
  from app_root_detection [OF run] split b n least
  have "appDirPrefix (projr (extraction (sample_env ''data.tar.gz'') ''/tmp/s'' sample_items))
      = ''./Foo'' @ ''.app/''"
    by blast
  then show ?thesis by simp
qed

subsection \<open>One entry\<close>

lemmas flags = type_flags_distinct type_flags_distinct [symmetric]

lemma path_Clean_nonempty: "path_Clean p \<noteq> []"
  by (simp add: path_Clean_def Let_def split: list.splits)

lemma spill_path_nonempty: "filepath_Join [t, spill_name k] \<noteq> []"
  by (simp add: filepath_Join_def path_Join_def spill_name_def path_Clean_nonempty
      split: list.splits)

lemma tar_step_files:
  assumes "tar_step E t st (TarEntry h c rf) = Inr st'"
  shows "if classified h
     then \<exists>vf. files st' = files st @ [vf]
       \<and> Name vf = hdr_Name h \<and> IsLink vf = (hdr_Typeflag h = tar_TypeSymlink)
       \<and> IsDir vf = (hdr_Typeflag h = tar_TypeDir)
       \<and> Mode vf = hdr_Mode h \<and> ModTime vf = hdr_ModTime h
     else files st' = files st"
  using assms
  by (auto simp add: Let_def classified_def flags split: if_splits)

lemma tar_step_regular:
  assumes "hdr_Typeflag h = tar_TypeReg"
    and "tar_step E t st (TarEntry h c rf) = Inr st'"
  defines "vf \<equiv> last (files st')"
  shows "files st' = files st @ [vf] \<and> Name vf = hdr_Name h \<and> kind_of vf = Regular
     \<and> infoPlistData st' = capture (hdr_Name h) (Data vf) (infoPlistData st)
     \<and> (if word_sless (currentRamUsage st + hdr_Size h) MaxMemoryUsage
         then Data vf = Some c \<and> DiskPath vf = []
            \<and> currentRamUsage st' = currentRamUsage st + of_nat (length c)
            \<and> spillCount st' = spillCount st \<and> disk st' = disk st
         else Data vf = None \<and> DiskPath vf = filepath_Join [t, spill_name (spillCount st + 1)]
            \<and> currentRamUsage st' = currentRamUsage st
            \<and> spillCount st' = spillCount st + 1
            \<and> disk st' = (disk st)(DiskPath vf := Some c))"
  using assms(1,2) unfolding vf_def
  by (auto simp add: Let_def kind_of_def flags split: if_splits)

lemma tar_step_other:
  assumes "hdr_Typeflag h \<noteq> tar_TypeReg"
    and "tar_step E t st (TarEntry h c rf) = Inr st'"
  defines "vf \<equiv> last (files st')"
  shows "infoPlistData st' = infoPlistData st \<and> currentRamUsage st' = currentRamUsage st
     \<and> spillCount st' = spillCount st \<and> disk st' = disk st
     \<and> (files st' = files st
        \<or> files st' = files st @ [vf] \<and> kind_of vf \<noteq> Regular \<and> DiskPath vf = []
          \<and> Data vf = None)"
  using assms(1,2) unfolding vf_def
  by (auto simp add: Let_def kind_of_def flags split: if_splits)

subsection \<open>The descriptor\<close>

text \<open>
  Claim C4, amended. For a regular entry whose name ends in \<open>Info.plist\<close>: placed
  in RAM with a buffer that is not empty, its bytes become the descriptor; placed in
  RAM with an empty buffer, or spilled to disk, it leaves the descriptor captured
  before as it was.
\<close>

theorem descriptor_capture:
  assumes "hdr_Typeflag h = tar_TypeReg"
    and "strings_HasSuffix (hdr_Name h) ''Info.plist''"
    and "tar_step E tmp st (TarEntry h content rf) = Inr st'"
  shows "\<exists>vf. files st' = files st @ [vf] \<and> Name vf = hdr_Name h
     \<and> (Data vf = Some content \<and> DiskPath vf = [] \<or> Data vf = None \<and> DiskPath vf \<noteq> [])
     \<and> (Data vf \<noteq> None \<and> content \<noteq> [] \<longrightarrow> infoPlistData st' = Some content)
     \<and> (Data vf \<noteq> None \<and> content = [] \<longrightarrow> infoPlistData st' = infoPlistData st)
     \<and> (DiskPath vf \<noteq> [] \<longrightarrow> infoPlistData st' = infoPlistData st)"
proof -
  define vf where "vf = last (files st')"
  from tar_step_regular [OF assms(1,3)]
  have f: "files st' = files st @ [vf]" and n: "Name vf = hdr_Name h"
    and i: "infoPlistData st' = capture (hdr_Name h) (Data vf) (infoPlistData st)"
    and d: "Data vf = Some content \<and> DiskPath vf = []
       \<or> Data vf = None \<and> DiskPath vf = filepath_Join [tmp, spill_name (spillCount st + 1)]"
    unfolding vf_def by (auto split: if_splits)
  from d have d': "Data vf = Some content \<and> DiskPath vf = [] \<or> Data vf = None \<and> DiskPath vf \<noteq> []"
    using spill_path_nonempty [of tmp "spillCount st + 1"] by auto
  from i d' assms(2) have "Data vf \<noteq> None \<and> content \<noteq> [] \<longrightarrow> infoPlistData st' = Some content"
    and "Data vf \<noteq> None \<and> content = [] \<longrightarrow> infoPlistData st' = infoPlistData st"
    and "DiskPath vf \<noteq> [] \<longrightarrow> infoPlistData st' = infoPlistData st"
    by (auto simp add: capture_def len_def)
  with f n d' show ?thesis by blast
qed

theorem descriptor_capture_witness:
  "infoPlistData (projr (tar_step (sample_env ''data.tar.gz'') ''/tmp/s'' init_state
       (TarEntry (sample_header ''./Foo.app/Info.plist'' tar_TypeReg 0x9A4 2) ''pl'' False)))
     = Some ''pl''"
proof -
  define h where "h = sample_header ''./Foo.app/Info.plist'' tar_TypeReg 0x9A4 2"
  define r where "r = tar_step (sample_env ''data.tar.gz'') ''/tmp/s'' init_state (TarEntry h ''pl'' False)"
  have a: "hdr_Typeflag h = tar_TypeReg"
    unfolding h_def by (simp add: sample_header_def)
  have b: "strings_HasSuffix (hdr_Name h) ''Info.plist''"
    unfolding h_def by code_simp
  have "\<not> isl r"
    unfolding r_def h_def by code_simp
  then have c: "tar_step (sample_env ''data.tar.gz'') ''/tmp/s'' init_state (TarEntry h ''pl'' False)
      = Inr (projr r)"
    unfolding r_def by simp
  have ram: "Data (last (files (projr r))) \<noteq> None"
    unfolding r_def h_def by code_simp
  from descriptor_capture [OF a b c] obtain vf where "files (projr r) = files init_state @ [vf]"
    and "Data vf \<noteq> None \<and> ''pl'' \<noteq> [] \<longrightarrow> infoPlistData (projr r) = Some ''pl''"
    by blast
  with ram have "infoPlistData (projr r) = Some ''pl''"
    by simp
  then show ?thesis
    unfolding r_def h_def .
qed

text \<open>
  Claim C4 as stated fails on the last entry of the sample stream: a regular entry
  named \<open>./Bar.app/Info.plist\<close> that is placed in RAM with no bytes. What is
  captured after its turn is not its buffer but the bytes of the descriptor before.
\<close>

theorem descriptor_capture_counterexample:
  "(case tar_step (sample_env ''data.tar.gz'') ''/tmp/s''
           (projr (extraction (sample_env ''data.tar.gz'') ''/tmp/s'' (butlast sample_items)))
           (TarEntry (sample_header ''./Bar.app/Info.plist'' tar_TypeReg 0x1A4 0) [] False) of
      Inl e \<Rightarrow> False
    | Inr st' \<Rightarrow>
        last sample_items = TarEntry (sample_header ''./Bar.app/Info.plist'' tar_TypeReg 0x1A4 0) [] False
      \<and> strings_HasSuffix ''./Bar.app/Info.plist'' ''Info.plist''
      \<and> Data (last (files st')) = Some []
      \<and> DiskPath (last (files st')) = []
      \<and> infoPlistData st' = Some ''pl''
      \<and> infoPlistData st' \<noteq> Data (last (files st')))"
  by code_simp

lemma descriptor_of_snoc:
  "descriptor_of (fs @ [vf]) = (if descriptor_in_ram vf then Data vf else descriptor_of fs)"
  by (simp add: descriptor_of_def)

lemma tar_step_descriptor:
  assumes "tar_step E t st item = Inr st'" and "infoPlistData st = descriptor_of (files st)"
  shows "infoPlistData st' = descriptor_of (files st')"
proof -
  from assms(1) obtain h c rf where item: "item = TarEntry h c rf"
    by (cases item) auto
  show ?thesis
  proof (cases "hdr_Typeflag h = tar_TypeReg")
    case True
    define vf where "vf = last (files st')"
    from tar_step_regular [OF True assms(1) [unfolded item]]
    have f: "files st' = files st @ [vf]" and n: "Name vf = hdr_Name h"
      and k: "kind_of vf = Regular"
      and i: "infoPlistData st' = capture (hdr_Name h) (Data vf) (infoPlistData st)"
      unfolding vf_def by simp_all
    have "capture (hdr_Name h) (Data vf) (infoPlistData st)
        = (if descriptor_in_ram vf then Data vf else infoPlistData st)"
      using n k by (auto simp add: capture_def descriptor_in_ram_def len_def split: option.splits)
    with f i assms(2) show ?thesis
      by (simp add: descriptor_of_snoc)
  next
    case False
    define vf where "vf = last (files st')"
    from tar_step_other [OF False assms(1) [unfolded item]]
    have i: "infoPlistData st' = infoPlistData st"
      and f: "files st' = files st \<or> files st' = files st @ [vf] \<and> kind_of vf \<noteq> Regular"
      unfolding vf_def by auto
    from f show ?thesis
    proof
      assume "files st' = files st"
      with i assms(2) show ?thesis by simp
    next
      assume "files st' = files st @ [vf] \<and> kind_of vf \<noteq> Regular"
      then have "files st' = files st @ [vf]" and "\<not> descriptor_in_ram vf"
        by (simp_all add: descriptor_in_ram_def)
      with i assms(2) show ?thesis
        by (simp add: descriptor_of_snoc)
    qed
  qed
qed

lemma tar_loop_descriptor:
  "tar_loop E t st items = Inr st' \<Longrightarrow> infoPlistData st = descriptor_of (files st) \<Longrightarrow>
     infoPlistData st' = descriptor_of (files st')"
proof (induction items arbitrary: st)
  case Nil
  then show ?case by simp
next
  case (Cons item items)
  from Cons.prems(1) obtain s1 where s1: "tar_step E t st item = Inr s1"
    and rest: "tar_loop E t s1 items = Inr st'"
    by (auto split: sum.splits)
  from tar_step_descriptor [OF s1 Cons.prems(2)] Cons.IH [OF rest]
  show ?case by simp
qed

lemma tar_loop_files:
  "tar_loop E t st items = Inr st' \<Longrightarrow>
     \<exists>new. files st' = files st @ new
       \<and> map (\<lambda>vf. (Name vf, IsLink vf, IsDir vf)) new
         = map (\<lambda>h. (hdr_Name h, hdr_Typeflag h = tar_TypeSymlink, hdr_Typeflag h = tar_TypeDir))
             (filter classified (entry_headers items))"
proof (induction items arbitrary: st)
  case Nil
  then show ?case by simp
next
  case (Cons item items)
  from Cons.prems(1) obtain s1 where s1: "tar_step E t st item = Inr s1"
    and rest: "tar_loop E t s1 items = Inr st'"
    by (auto split: sum.splits)
  from s1 obtain h c rf where item: "item = TarEntry h c rf"
    by (cases item) auto
  from Cons.IH [OF rest] obtain new where new: "files st' = files s1 @ new"
    and names: "map (\<lambda>vf. (Name vf, IsLink vf, IsDir vf)) new
         = map (\<lambda>h. (hdr_Name h, hdr_Typeflag h = tar_TypeSymlink, hdr_Typeflag h = tar_TypeDir))
             (filter classified (entry_headers items))"
    by blast
  show ?case
  proof (cases "classified h")
    case True
    with tar_step_files [OF s1 [unfolded item]] obtain vf where "files s1 = files st @ [vf]"
      and "Name vf = hdr_Name h" and "IsLink vf = (hdr_Typeflag h = tar_TypeSymlink)"
      and "IsDir vf = (hdr_Typeflag h = tar_TypeDir)"
      by auto
    with new names True item show ?thesis
      by (intro exI [of _ "vf # new"]) simp
  next
    case False
    with tar_step_files [OF s1 [unfolded item]] have "files s1 = files st"
      by simp
    with new names False item show ?thesis
      by (intro exI [of _ new]) simp
  qed
qed

text \<open>
  Claim C9. After a pass that reaches the end of the stream, the bytes kept for the
  metadata parser are those of the last file of the store, in traversal order, that
  is regular, has a name ending in \<open>Info.plist\<close> and was placed in RAM with a
  buffer that is not empty; there are none when the store has no such file.
\<close>

theorem descriptor_is_last_in_ram:
  assumes "extraction E tmp items = Inr st"
  shows "infoPlistData st =
           (if filter descriptor_in_ram (files st) = [] then None
            else Data (last (filter descriptor_in_ram (files st))))
       \<and> map Name (files st) = map hdr_Name (filter classified (entry_headers items))
       \<and> app_metadata E st = fallback_name (app_folder st) (parse_plist E (infoPlistData st))"
proof -
  have "infoPlistData init_state = descriptor_of (files init_state)"
    by (simp add: init_state_def descriptor_of_def)
  with assms have "infoPlistData st = descriptor_of (files st)"
    unfolding extraction_def by (rule tar_loop_descriptor)
  moreover from assms obtain new where "files st = files init_state @ new"
    and "map (\<lambda>vf. (Name vf, IsLink vf, IsDir vf)) new
         = map (\<lambda>h. (hdr_Name h, hdr_Typeflag h = tar_TypeSymlink, hdr_Typeflag h = tar_TypeDir))
             (filter classified (entry_headers items))"
    unfolding extraction_def using tar_loop_files by blast
  then have "map (\<lambda>vf. (Name vf, IsLink vf, IsDir vf)) (files st)
         = map (\<lambda>h. (hdr_Name h, hdr_Typeflag h = tar_TypeSymlink, hdr_Typeflag h = tar_TypeDir))
             (filter classified (entry_headers items))"
    by (simp add: init_state_def)
  then have "map fst (map (\<lambda>vf. (Name vf, IsLink vf, IsDir vf)) (files st))
         = map fst (map (\<lambda>h. (hdr_Name h, hdr_Typeflag h = tar_TypeSymlink, hdr_Typeflag h = tar_TypeDir))
             (filter classified (entry_headers items)))"
    by (rule arg_cong)
  then have "map Name (files st) = map hdr_Name (filter classified (entry_headers items))"
    by (simp add: comp_def)
  ultimately show ?thesis
    by (simp add: descriptor_of_def app_metadata_def)
qed

theorem descriptor_is_last_in_ram_witness:
  "infoPlistData (projr (extraction (sample_env ''data.tar.gz'') ''/tmp/s'' sample_items)) = Some ''pl''
   \<and> map Name (filter descriptor_in_ram
        (files (projr (extraction (sample_env ''data.tar.gz'') ''/tmp/s'' sample_items))))
      = [''./Foo.app/Info.plist'']
   \<and> map Name (files (projr (extraction (sample_env ''data.tar.gz'') ''/tmp/s'' sample_items)))
      = [''./'', ''./Foo.app/'', ''./Foo.app/Foo'', ''./Foo.app/Info.plist'', ''./Foo.app/big'',
         ''./Foo.app/run'', ''./Bar.app/Info.plist'']"
proof -
  define st where "st = projr (extraction (sample_env ''data.tar.gz'') ''/tmp/s'' sample_items)"
  have "\<not> isl (extraction (sample_env ''data.tar.gz'') ''/tmp/s'' sample_items)"
    by code_simp
  then have run: "extraction (sample_env ''data.tar.gz'') ''/tmp/s'' sample_items = Inr st"
    unfolding st_def by simp
  have q: "filter descriptor_in_ram (files st) = [files st ! 3]"
    unfolding st_def by code_simp
  have d: "Data (files st ! 3) = Some ''pl''"
    unfolding st_def by code_simp
  have n: "Name (files st ! 3) = ''./Foo.app/Info.plist''"
    unfolding st_def by code_simp
  have h: "map hdr_Name (filter classified (entry_headers sample_items))
      = [''./'', ''./Foo.app/'', ''./Foo.app/Foo'', ''./Foo.app/Info.plist'', ''./Foo.app/big'',
         ''./Foo.app/run'', ''./Bar.app/Info.plist'']"
    by code_simp
  from descriptor_is_last_in_ram [OF run] q d n h show ?thesis
    unfolding st_def [symmetric] by simp
qed

subsection \<open>The names of the spill files\<close>

lemma digit_value_char: "d < 10 \<Longrightarrow> digit_value (digit_char d) = d"
proof -
  assume "d < 10"
  then have "d \<in> {0, 1, 2, 3, 4, 5, 6, 7, 8, 9}"
    by auto
  then show ?thesis
    by (auto simp add: digit_value_def digit_char_def)
qed

lemma digit_char_digit: "d < 10 \<Longrightarrow> digit_char d \<in> set ''0123456789''"
  unfolding digit_char_def by (rule nth_mem) simp

lemma decimal_value_snoc: "decimal_value (s @ [c]) = 10 * decimal_value s + digit_value c"
  by (simp add: decimal_value_def)

lemma decimal_value_fmt_d: "decimal_value (fmt_d n) = n"
proof (induction n rule: fmt_d.induct)
  case (1 n)
  show ?case
  proof (cases "n < 10")
    case True
    then show ?thesis
      using decimal_value_snoc [of "[]" "digit_char n"]
      by (simp add: fmt_d.simps [of n] digit_value_char decimal_value_def)
  next
    case False
    with "1.IH" show ?thesis
      by (simp add: fmt_d.simps [of n] decimal_value_snoc digit_value_char)
  qed
qed

lemma fmt_d_inject: "fmt_d a = fmt_d b \<Longrightarrow> a = b"
  by (metis decimal_value_fmt_d)

lemma fmt_d_digits: "set (fmt_d n) \<subseteq> set ''0123456789''"
proof (induction n rule: fmt_d.induct)
  case (1 n)
  show ?case
  proof (cases "n < 10")
    case True
    then show ?thesis
      using digit_char_digit [of n] by (simp add: fmt_d.simps [of n])
  next
    case False
    with "1.IH" show ?thesis
      using digit_char_digit [of "n mod 10"] by (simp add: fmt_d.simps [of n])
  qed
qed

lemma spill_name_simple:
  "spill_name k \<noteq> []" "CHR ''/'' \<notin> set (spill_name k)" "hd (spill_name k) \<noteq> CHR ''.''"
  using fmt_d_digits [of k] by (auto simp add: spill_name_def)

lemma spill_name_inject: "spill_name a = spill_name b \<Longrightarrow> a = b"
  by (simp add: spill_name_def fmt_d_inject)

subsection \<open>Cleaning a path whose last element is a plain name\<close>

lemma clean_step_simple:
  assumes "n \<noteq> []" and "CHR ''/'' \<notin> set n" and "hd n \<noteq> CHR ''.''"
  shows "clean_step rooted n out dd = ([], add_slash rooted out @ n, dd)"
proof -
  from assms obtain c r where n: "n = c # r" and c: "c \<noteq> CHR ''/''" "c \<noteq> CHR ''.''"
    by (cases n) auto
  have "dropWhile (\<lambda>x. x \<noteq> CHR ''/'') n = []" and "takeWhile (\<lambda>x. x \<noteq> CHR ''/'') n = n"
    using assms(2) by auto
  then show ?thesis
    using n c by (simp add: clean_step_def is_dot_def is_dotdot_def split: list.splits)
qed

lemma clean_loop_simple:
  assumes "n \<noteq> []" and "CHR ''/'' \<notin> set n" and "hd n \<noteq> CHR ''.''"
  shows "clean_loop rooted n out dd = add_slash rooted out @ n"
  using assms(1) clean_step_simple [OF assms]
  by (simp add: clean_loop.simps [of rooted n] clean_loop.simps [of rooted "[]"])

lemma last_dropWhile: "dropWhile P xs \<noteq> [] \<Longrightarrow> last (dropWhile P xs) = last xs"
  by (metis last_appendR takeWhile_dropWhile_id)

lemma clean_step_append:
  assumes "d \<noteq> []" and "last d = CHR ''/''"
  shows "clean_step rooted (d @ n) out dd =
           (case clean_step rooted d out dd of (d', out', dd') \<Rightarrow> (d' @ n, out', dd'))"
    and "fst (clean_step rooted d out dd) = [] \<or> last (fst (clean_step rooted d out dd)) = CHR ''/''"
proof -
  have slash: "CHR ''/'' \<in> set d"
    using assms by (metis last_in_set)
  have dw: "dropWhile (\<lambda>x. x \<noteq> CHR ''/'') (d @ n) = dropWhile (\<lambda>x. x \<noteq> CHR ''/'') d @ n"
    using slash by (simp add: dropWhile_append1)
  have tw: "takeWhile (\<lambda>x. x \<noteq> CHR ''/'') (d @ n) = takeWhile (\<lambda>x. x \<noteq> CHR ''/'') d"
    using slash by (simp add: takeWhile_append1)
  have dot: "is_dot (d @ n) = is_dot d"
    using assms by (cases d; cases "tl d") (auto simp add: is_dot_def split: list.splits)
  have dotdot: "is_dotdot (d @ n) = is_dotdot d"
    using assms by (cases d; cases "tl d"; cases "tl (tl d)") (auto simp add: is_dotdot_def split: list.splits)
  have hd: "hd (d @ n) = hd d" and tl: "tl (d @ n) = tl d @ n"
    using assms(1) by simp_all
  have d2: "drop 2 (d @ n) = drop 2 d @ n" if "is_dotdot d"
    using that assms by (cases d; cases "tl d"; cases "tl (tl d)") (auto simp add: is_dotdot_def)
  show "clean_step rooted (d @ n) out dd =
           (case clean_step rooted d out dd of (d', out', dd') \<Rightarrow> (d' @ n, out', dd'))"
    unfolding clean_step_def dot dotdot hd tl dw tw
    using d2 by (simp add: Let_def)
  have l1: "tl d = [] \<or> last (tl d) = CHR ''/''"
    using assms by (cases d) (auto split: if_splits)
  have l2: "drop 2 d = [] \<or> last (drop 2 d) = CHR ''/''"
    using assms by (cases d; cases "tl d") (auto split: if_splits)
  have l3: "dropWhile (\<lambda>x. x \<noteq> CHR ''/'') d = []
      \<or> last (dropWhile (\<lambda>x. x \<noteq> CHR ''/'') d) = CHR ''/''"
    using assms(2) last_dropWhile [of "\<lambda>x. x \<noteq> CHR ''/''" d] by auto
  show "fst (clean_step rooted d out dd) = [] \<or> last (fst (clean_step rooted d out dd)) = CHR ''/''"
    using l1 l2 l3 by (auto simp add: clean_step_def Let_def)
qed

lemma clean_loop_last_elem:
  assumes "n \<noteq> []" and "CHR ''/'' \<notin> set n" and "hd n \<noteq> CHR ''.''"
  shows "d = [] \<or> last d = CHR ''/'' \<Longrightarrow>
     clean_loop rooted (d @ n) out dd = add_slash rooted (clean_loop rooted d out dd) @ n"
proof (induction rooted d out dd rule: clean_loop.induct)
  case (1 rooted d out dd)
  show ?case
  proof (cases "d = []")
    case True
    then show ?thesis
      using clean_loop_simple [OF assms] by (simp add: clean_loop.simps [of rooted "[]"])
  next
    case False
    with "1.prems" have last: "last d = CHR ''/''" by simp
    obtain d' out' dd' where step: "clean_step rooted d out dd = (d', out', dd')"
      by (cases "clean_step rooted d out dd") auto
    from clean_step_append(1) [OF False last, of rooted n out dd]
      clean_step_append(2) [OF False last, of rooted out dd] step
    have app: "clean_step rooted (d @ n) out dd = (d' @ n, out', dd')"
      and ok: "d' = [] \<or> last d' = CHR ''/''"
      by simp_all
    from "1.IH" [OF False step [symmetric] refl ok]
    have "clean_loop rooted (d' @ n) out' dd' = add_slash rooted (clean_loop rooted d' out' dd') @ n" .
    then show ?thesis
      using False step app assms(1)
      by (simp add: clean_loop.simps [of rooted d] clean_loop.simps [of rooted "d @ n"])
  qed
qed

lemma filepath_Join_last_elem:
  "\<exists>dir. \<forall>n. n \<noteq> [] \<and> CHR ''/'' \<notin> set n \<and> hd n \<noteq> CHR ''.'' \<longrightarrow> filepath_Join [t, n] = dir @ n"
proof (cases t)
  case Nil
  have "filepath_Join [t, n] = [] @ n" if "n \<noteq> []" "CHR ''/'' \<notin> set n" "hd n \<noteq> CHR ''.''" for n
  proof -
    from that obtain c r where n: "n = c # r" and "c \<noteq> CHR ''/''"
      by (cases n) auto
    then show ?thesis
      using Nil clean_loop_simple [OF that, of False "[]" 0]
      by (simp add: filepath_Join_def path_Join_def path_Clean_def add_slash_def)
  qed
  then show ?thesis by blast
next
  case (Cons c r)
  show ?thesis
  proof (cases "c = CHR ''/''")
    case True
    have "filepath_Join [t, n] = add_slash True (clean_loop True (r @ ''/'') ''/'' 1) @ n"
      if "n \<noteq> []" "CHR ''/'' \<notin> set n" "hd n \<noteq> CHR ''.''" for n
      using Cons True that clean_loop_last_elem [OF that, of "r @ ''/''" True "''/''" 1]
      by (simp add: filepath_Join_def path_Join_def path_Clean_def)
    then show ?thesis by blast
  next
    case False
    have "filepath_Join [t, n] = add_slash False (clean_loop False (t @ ''/'') [] 0) @ n"
      if "n \<noteq> []" "CHR ''/'' \<notin> set n" "hd n \<noteq> CHR ''.''" for n
      using Cons False that clean_loop_last_elem [OF that, of "t @ ''/''" False "[]" 0]
      by (simp add: filepath_Join_def path_Join_def path_Clean_def)
    then show ?thesis by blast
  qed
qed

lemma spill_path_inject:
  assumes "filepath_Join [t, spill_name a] = filepath_Join [t, spill_name b]"
  shows "a = b"
proof -
  from filepath_Join_last_elem [of t] obtain dir
    where "\<forall>n. n \<noteq> [] \<and> CHR ''/'' \<notin> set n \<and> hd n \<noteq> CHR ''.'' \<longrightarrow> filepath_Join [t, n] = dir @ n"
    by blast
  then have "filepath_Join [t, spill_name a] = dir @ spill_name a"
    and "filepath_Join [t, spill_name b] = dir @ spill_name b"
    using spill_name_simple by blast+
  with assms have "spill_name a = spill_name b" by simp
  then show ?thesis by (rule spill_name_inject)
qed

subsection \<open>RAM or disk\<close>

lemma placed_init: "placed t init_state"
  by (simp add: placed_def init_state_def)

lemma placed_fresh:
  assumes "placed t st"
  shows "filepath_Join [t, spill_name (spillCount st + 1)] \<notin> set (map DiskPath (files st))"
    and "disk st (filepath_Join [t, spill_name (spillCount st + 1)]) = None"
proof -
  let ?p = "filepath_Join [t, spill_name (spillCount st + 1)]"
  have new: "?p \<noteq> filepath_Join [t, spill_name k]" if "k \<le> spillCount st" for k
    using that spill_path_inject [of t "spillCount st + 1" k] by auto
  show "?p \<notin> set (map DiskPath (files st))"
  proof
    assume "?p \<in> set (map DiskPath (files st))"
    then obtain vf where "vf \<in> set (files st)" and "DiskPath vf = ?p"
      by auto
    with assms spill_path_nonempty [of t "spillCount st + 1"]
    obtain k where "k \<le> spillCount st" and "?p = filepath_Join [t, spill_name k]"
      unfolding placed_def by metis
    with new show False by blast
  qed
  show "disk st ?p = None"
  proof (rule ccontr)
    assume "disk st ?p \<noteq> None"
    with assms obtain k where "k \<le> spillCount st" and "?p = filepath_Join [t, spill_name k]"
      unfolding placed_def by blast
    with new show False by blast
  qed
qed

lemma placed_snoc:
  assumes "placed t st" and "files st' = files st @ [vf]"
    and "spillCount st \<le> spillCount st'"
    and "kind_of vf = Regular \<longrightarrow> (Data vf \<noteq> None) \<noteq> (DiskPath vf \<noteq> [])"
    and "DiskPath vf \<noteq> [] \<longrightarrow> DiskPath vf \<notin> set (map DiskPath (files st))
       \<and> (\<exists>k. k \<le> spillCount st' \<and> DiskPath vf = filepath_Join [t, spill_name k])"
    and "\<forall>p. disk st' p \<noteq> None \<longrightarrow> disk st p \<noteq> None \<or> p = DiskPath vf \<and> p \<noteq> []"
  shows "placed t st'"
proof -
  have w: "\<exists>k. k \<le> spillCount st' \<and> p = filepath_Join [t, spill_name k]"
    if "\<exists>k. k \<le> spillCount st \<and> p = filepath_Join [t, spill_name k]" for p
  proof -
    from that obtain k where "k \<le> spillCount st" and "p = filepath_Join [t, spill_name k]"
      by blast
    with assms(3) have "k \<le> spillCount st' \<and> p = filepath_Join [t, spill_name k]"
      by simp
    then show ?thesis ..
  qed
  have a: "\<forall>v \<in> set (files st').
          (kind_of v = Regular \<longrightarrow> (Data v \<noteq> None) \<noteq> (DiskPath v \<noteq> []))
        \<and> (DiskPath v \<noteq> [] \<longrightarrow>
             (\<exists>k. k \<le> spillCount st' \<and> DiskPath v = filepath_Join [t, spill_name k]))"
  proof
    fix v assume "v \<in> set (files st')"
    then consider "v \<in> set (files st)" | "v = vf"
      using assms(2) by auto
    then show "(kind_of v = Regular \<longrightarrow> (Data v \<noteq> None) \<noteq> (DiskPath v \<noteq> []))
        \<and> (DiskPath v \<noteq> [] \<longrightarrow>
             (\<exists>k. k \<le> spillCount st' \<and> DiskPath v = filepath_Join [t, spill_name k]))"
    proof cases
      case 1
      with assms(1) w [of "DiskPath v"] show ?thesis
        unfolding placed_def by blast
    next
      case 2
      with assms(4,5) show ?thesis by blast
    qed
  qed
  have b: "distinct (filter (\<lambda>p. p \<noteq> []) (map DiskPath (files st')))"
    using assms(1,2,5) by (auto simp add: placed_def)
  have c: "\<forall>p. disk st' p \<noteq> None \<longrightarrow>
             (\<exists>k. k \<le> spillCount st' \<and> p = filepath_Join [t, spill_name k])"
  proof (intro allI impI)
    fix p assume "disk st' p \<noteq> None"
    with assms(6) consider "disk st p \<noteq> None" | "p = DiskPath vf" "p \<noteq> []"
      by blast
    then show "\<exists>k. k \<le> spillCount st' \<and> p = filepath_Join [t, spill_name k]"
    proof cases
      case 1
      with assms(1) w [of p] show ?thesis
        unfolding placed_def by blast
    next
      case 2
      with assms(5) show ?thesis by blast
    qed
  qed
  from a b c show ?thesis
    unfolding placed_def by blast
qed

lemma tar_step_placed:
  assumes "tar_step E t st item = Inr st'" and "placed t st"
  shows "placed t st'"
proof -
  from assms(1) obtain h c rf where item: "item = TarEntry h c rf"
    by (cases item) auto
  define vf where "vf = last (files st')"
  show ?thesis
  proof (cases "hdr_Typeflag h = tar_TypeReg")
    case True
    note reg = tar_step_regular [OF True assms(1) [unfolded item], folded vf_def]
    from reg have f: "files st' = files st @ [vf]" by simp
    show ?thesis
    proof (cases "word_sless (currentRamUsage st + hdr_Size h) MaxMemoryUsage")
      case True
      with reg have "Data vf = Some c" "DiskPath vf = []" "spillCount st' = spillCount st"
        "disk st' = disk st"
        by simp_all
      with assms(2) f show ?thesis
        by (intro placed_snoc [of t st st' vf]) simp_all
    next
      case False
      with reg have d: "Data vf = None"
        and p: "DiskPath vf = filepath_Join [t, spill_name (spillCount st + 1)]"
        and s: "spillCount st' = spillCount st + 1"
        and k: "disk st' = (disk st)(DiskPath vf := Some c)"
        by simp_all
      from p spill_path_nonempty have ne: "DiskPath vf \<noteq> []" by simp
      from placed_fresh(1) [OF assms(2)] p
      have fresh: "DiskPath vf \<notin> set (map DiskPath (files st))" by simp
      have "\<exists>k. k \<le> spillCount st' \<and> DiskPath vf = filepath_Join [t, spill_name k]"
        using p s by (intro exI [of _ "spillCount st + 1"]) simp
      with assms(2) f d ne fresh s k show ?thesis
        by (intro placed_snoc [of t st st' vf]) simp_all
    qed
  next
    case False
    from tar_step_other [OF False assms(1) [unfolded item], folded vf_def]
    have same: "spillCount st' = spillCount st" "disk st' = disk st"
      and f: "files st' = files st
        \<or> files st' = files st @ [vf] \<and> kind_of vf \<noteq> Regular \<and> DiskPath vf = [] \<and> Data vf = None"
      by simp_all
    from f show ?thesis
    proof
      assume "files st' = files st"
      with assms(2) same show ?thesis
        by (simp add: placed_def)
    next
      assume "files st' = files st @ [vf] \<and> kind_of vf \<noteq> Regular \<and> DiskPath vf = [] \<and> Data vf = None"
      with assms(2) same show ?thesis
        by (intro placed_snoc [of t st st' vf]) simp_all
    qed
  qed
qed

lemma tar_loop_placed:
  "tar_loop E t st items = Inr st' \<Longrightarrow> placed t st \<Longrightarrow> placed t st'"
proof (induction items arbitrary: st)
  case Nil
  then show ?case by simp
next
  case (Cons item items)
  from Cons.prems(1) obtain s1 where s1: "tar_step E t st item = Inr s1"
    and rest: "tar_loop E t s1 items = Inr st'"
    by (auto split: sum.splits)
  from tar_step_placed [OF s1 Cons.prems(2)] Cons.IH [OF rest]
  show ?case by simp
qed

lemma tar_loop_files_grow: "tar_loop E t st items = Inr st' \<Longrightarrow> prefix (files st) (files st')"
  using tar_loop_files [of E t st items st'] by auto

text \<open>
  What the pass does at the turn of a regular entry, with the state \<open>s0\<close> reached
  before it: when the signed reading of the 64-bit sum of the RAM in use and the
  entry's declared size is below the ceiling of 2 GiB, the file gets the bytes
  delivered as its buffer and the RAM in use grows by their number; otherwise the
  bytes delivered go to the file \<open>spill_N\<close> of the spill directory, with \<open>N\<close> the
  spill count plus one, a file that was not there before, and the file records that
  path. After the pass every regular file of the store has a buffer or a spill path
  and not both, and no two files share a spill path. The sum is that of the integers
  when it does not overflow.
\<close>

lemma placement_at_turn:
  assumes "extraction E tmp items = Inr st"
  shows "(\<forall>vf \<in> set (files st). kind_of vf = Regular \<longrightarrow> (Data vf \<noteq> None) \<noteq> (DiskPath vf \<noteq> []))
       \<and> distinct (filter (\<lambda>p. p \<noteq> []) (map DiskPath (files st)))
       \<and> (\<forall>before h content rf after.
             items = before @ TarEntry h content rf # after \<and> hdr_Typeflag h = tar_TypeReg \<longrightarrow>
             (\<exists>s0 s1 vf.
                 extraction E tmp before = Inr s0
               \<and> tar_step E tmp s0 (TarEntry h content rf) = Inr s1
               \<and> tar_loop E tmp s1 after = Inr st
               \<and> files s1 = files s0 @ [vf] \<and> prefix (files s1) (files st)
               \<and> Name vf = hdr_Name h \<and> kind_of vf = Regular
               \<and> (if sint (currentRamUsage s0 + hdr_Size h) < 2147483648
                   then Data vf = Some content \<and> DiskPath vf = []
                      \<and> currentRamUsage s1 = currentRamUsage s0 + of_nat (length content)
                      \<and> spillCount s1 = spillCount s0 \<and> disk s1 = disk s0
                   else Data vf = None
                      \<and> DiskPath vf = filepath_Join [tmp, spill_name (spillCount s0 + 1)]
                      \<and> disk s0 (DiskPath vf) = None
                      \<and> disk s1 = (disk s0)(DiskPath vf := Some content)
                      \<and> currentRamUsage s1 = currentRamUsage s0
                      \<and> spillCount s1 = spillCount s0 + 1)))"
proof -
  from assms have inv: "placed tmp st"
    unfolding extraction_def using placed_init by (rule tar_loop_placed)
  have one: "\<forall>vf \<in> set (files st). kind_of vf = Regular \<longrightarrow> (Data vf \<noteq> None) \<noteq> (DiskPath vf \<noteq> [])"
    using inv unfolding placed_def by blast
  have two: "distinct (filter (\<lambda>p. p \<noteq> []) (map DiskPath (files st)))"
    using inv unfolding placed_def by blast
  have max: "sint MaxMemoryUsage = 2147483648"
    by (simp add: MaxMemoryUsage_def)
  have three: "\<exists>s0 s1 vf.
                 extraction E tmp before = Inr s0
               \<and> tar_step E tmp s0 (TarEntry h content rf) = Inr s1
               \<and> tar_loop E tmp s1 after = Inr st
               \<and> files s1 = files s0 @ [vf] \<and> prefix (files s1) (files st)
               \<and> Name vf = hdr_Name h \<and> kind_of vf = Regular
               \<and> (if sint (currentRamUsage s0 + hdr_Size h) < 2147483648
                   then Data vf = Some content \<and> DiskPath vf = []
                      \<and> currentRamUsage s1 = currentRamUsage s0 + of_nat (length content)
                      \<and> spillCount s1 = spillCount s0 \<and> disk s1 = disk s0
                   else Data vf = None
                      \<and> DiskPath vf = filepath_Join [tmp, spill_name (spillCount s0 + 1)]
                      \<and> disk s0 (DiskPath vf) = None
                      \<and> disk s1 = (disk s0)(DiskPath vf := Some content)
                      \<and> currentRamUsage s1 = currentRamUsage s0
                      \<and> spillCount s1 = spillCount s0 + 1)"
    if split: "items = before @ TarEntry h content rf # after" and reg: "hdr_Typeflag h = tar_TypeReg"
    for before h content rf after
  proof -
    from assms split obtain s0 s1 where s0: "tar_loop E tmp init_state before = Inr s0"
      and s1: "tar_step E tmp s0 (TarEntry h content rf) = Inr s1"
      and rest: "tar_loop E tmp s1 after = Inr st"
      unfolding extraction_def by (auto elim: tar_loop_split)
    define vf where "vf = last (files s1)"
    note step = tar_step_regular [OF reg s1, folded vf_def]
    from s0 have inv0: "placed tmp s0"
      using placed_init by (rule tar_loop_placed)
    have fresh: "disk s0 (filepath_Join [tmp, spill_name (spillCount s0 + 1)]) = None"
      using inv0 by (rule placed_fresh(2))
    have grow: "prefix (files s1) (files st)"
      using rest by (rule tar_loop_files_grow)
    have cond: "word_sless (currentRamUsage s0 + hdr_Size h) MaxMemoryUsage
        \<longleftrightarrow> sint (currentRamUsage s0 + hdr_Size h) < 2147483648"
      by (simp add: word_sless_alt max)
    from step fresh grow s0 s1 rest show ?thesis
      unfolding cond extraction_def
      by (intro exI [of _ s0] exI [of _ s1] exI [of _ vf]) (auto split: if_splits)
  qed
  have four: "sint (used + size) = sint used + sint size"
    if "- (2 ^ 63) \<le> sint used + sint size \<and> sint used + sint size < 2 ^ 63"
    for used size :: int64
    using that by (simp add: sint_word_ariths signed_take_bit_int_eq_self)
  from one two three four show ?thesis
    by blast
qed

text \<open>
  Claim C3, where the code departs from it. With 5 bytes in RAM, a regular entry
  that declares \<open>2 ^ 63 - 1\<close> bytes does not satisfy the inequality of the claim:
  the sum is far above the ceiling. The code adds in \<open>int64\<close>: the sum wraps around
  to a negative number, the test of line 198 succeeds and the entry is read into RAM,
  where the truncated stream ends the run with the error of \<open>io.ReadAll\<close>. The same
  entry declaring five bytes less, the largest size whose sum does not overflow, is
  spilled to disk as the claim says, and the run goes on.
\<close>

theorem ram_ceiling_overflow:
  "currentRamUsage before_overflow = 5
   \<and> sint (hdr_Size overflow_header) = 2 ^ 63 - 1
   \<and> \<not> sint (currentRamUsage before_overflow) + sint (hdr_Size overflow_header) < 2 ^ 31
   \<and> sint (currentRamUsage before_overflow + hdr_Size overflow_header) = 4 - 2 ^ 63
   \<and> word_sless (currentRamUsage before_overflow + hdr_Size overflow_header) MaxMemoryUsage
   \<and> (case tar_step (sample_env ''data.tar.gz'') ''/tmp/s'' before_overflow
              (TarEntry overflow_header ''abc'' True) of
         Inl e \<Rightarrow> e = ReadAllError
       | Inr s1 \<Rightarrow> False)
   \<and> (case tar_step (sample_env ''data.tar.gz'') ''/tmp/s'' before_overflow
              (TarEntry (overflow_header\<lparr>hdr_Size := 0x7FFFFFFFFFFFFFFA\<rparr>) ''abc'' True) of
         Inl e \<Rightarrow> False
       | Inr s1 \<Rightarrow> Data (last (files s1)) = None
           \<and> DiskPath (last (files s1)) = ''/tmp/s/spill_1''
           \<and> currentRamUsage s1 = 5 \<and> spillCount s1 = 1)"
  by code_simp

subsection \<open>The order of the output\<close>

lemma tar_step_stored:
  assumes "tar_step E t st (TarEntry h c rf) = Inr st'"
  defines "vf \<equiv> last (files st')"
  shows "if classified h
         then files st' = files st @ [vf] \<and> stored_as (disk st') (h, c) vf
            \<and> (DiskPath vf \<noteq> [] \<longrightarrow> disk st' (DiskPath vf) \<noteq> None)
         else files st' = files st"
  using assms(1) spill_path_nonempty [of t "Suc (spillCount st)"] unfolding vf_def
  by (auto simp add: Let_def classified_def stored_as_def entry_body_def flags split: if_splits)

lemma tar_step_disk_kept:
  assumes "tar_step E t st item = Inr st'" and "placed t st" and "disk st p \<noteq> None"
  shows "disk st' p = disk st p"
proof -
  from assms(1) obtain h c rf where item: "item = TarEntry h c rf"
    by (cases item) auto
  show ?thesis
  proof (cases "hdr_Typeflag h = tar_TypeReg")
    case True
    from tar_step_regular [OF True assms(1) [unfolded item]]
    have "disk st' = disk st
        \<or> disk st' = (disk st)(filepath_Join [t, spill_name (spillCount st + 1)] := Some c)"
      by (auto split: if_splits)
    moreover have "p \<noteq> filepath_Join [t, spill_name (spillCount st + 1)]"
      using placed_fresh(2) [OF assms(2)] assms(3) by auto
    ultimately show ?thesis by auto
  next
    case False
    from tar_step_other [OF False assms(1) [unfolded item]] show ?thesis
      by simp
  qed
qed

lemma tar_loop_disk_kept:
  "tar_loop E t st items = Inr st' \<Longrightarrow> placed t st \<Longrightarrow> disk st p \<noteq> None \<Longrightarrow>
     disk st' p = disk st p"
proof (induction items arbitrary: st)
  case Nil
  then show ?case by simp
next
  case (Cons item items)
  from Cons.prems(1) obtain s1 where s1: "tar_step E t st item = Inr s1"
    and rest: "tar_loop E t s1 items = Inr st'"
    by (auto split: sum.splits)
  have k: "disk s1 p = disk st p"
    using s1 Cons.prems(2,3) by (rule tar_step_disk_kept)
  have "disk st' p = disk s1 p"
    using rest tar_step_placed [OF s1 Cons.prems(2)] k Cons.prems(3)
    by (intro Cons.IH) simp_all
  with k show ?case by simp
qed

lemma stored_as_kept:
  assumes "stored_as dsk e vf" and "DiskPath vf \<noteq> [] \<longrightarrow> dsk' (DiskPath vf) = dsk (DiskPath vf)"
  shows "stored_as dsk' e vf"
  using assms by (auto simp add: stored_as_def entry_body_def)

lemma tar_loop_stored:
  "tar_loop E t st items = Inr st' \<Longrightarrow> placed t st \<Longrightarrow>
     \<exists>new. files st' = files st @ new
       \<and> list_all2 (stored_as (disk st')) (filter (\<lambda>e. classified (fst e)) (entry_contents items)) new"
proof (induction items arbitrary: st)
  case Nil
  then show ?case by simp
next
  case (Cons item items)
  from Cons.prems(1) obtain s1 where s1: "tar_step E t st item = Inr s1"
    and rest: "tar_loop E t s1 items = Inr st'"
    by (auto split: sum.splits)
  from s1 obtain h c rf where item: "item = TarEntry h c rf"
    by (cases item) auto
  have inv1: "placed t s1"
    using s1 Cons.prems(2) by (rule tar_step_placed)
  from Cons.IH [OF rest inv1] obtain new where new: "files st' = files s1 @ new"
    and all: "list_all2 (stored_as (disk st'))
        (filter (\<lambda>e. classified (fst e)) (entry_contents items)) new"
    by blast
  define vf where "vf = last (files s1)"
  note step = tar_step_stored [OF s1 [unfolded item], folded vf_def]
  show ?case
  proof (cases "classified h")
    case True
    with step have f: "files s1 = files st @ [vf]" and s: "stored_as (disk s1) (h, c) vf"
      and d: "DiskPath vf \<noteq> [] \<longrightarrow> disk s1 (DiskPath vf) \<noteq> None"
      by simp_all
    have "DiskPath vf \<noteq> [] \<longrightarrow> disk st' (DiskPath vf) = disk s1 (DiskPath vf)"
      using d tar_loop_disk_kept [OF rest inv1] by blast
    with s have "stored_as (disk st') (h, c) vf"
      by (rule stored_as_kept)
    with new all f True item show ?thesis
      by (intro exI [of _ "vf # new"]) simp
  next
    case False
    with step have "files s1 = files st" by simp
    with new all False item show ?thesis
      by (intro exI [of _ new]) simp
  qed
qed

text \<open>
  Claim C8. Whenever a run creates the output file: the store of its extraction pass
  holds the classified entries of the stream (symbolic links, regular files and
  directories), one file for each, in the order of the stream, each with the name,
  mode, time, kind and bytes of its entry; and the entries written to the output
  file are those of the files of the store whose name begins with the app root, in
  the order of the store, each built from its file: all of them when the run
  succeeds, and a prefix of them when the zip writer refuses a header and the run
  ends there.
\<close>

theorem output_order:
  assumes "ipa (convert E debPath) = Some (p, es)"
  shows "\<exists>f ms items tmp st.
           os_Open E debPath = Some f \<and> ar_NewReader E f = Some ms
         \<and> find_dataTar E ms = Inr (Some items) \<and> os_MkdirTemp E = Some tmp
         \<and> extraction E tmp items = Inr st
         \<and> list_all2 (stored_as (disk st))
              (filter (\<lambda>e. classified (fst e)) (entry_contents items)) (files st)
         \<and> prefix es
              (map (emit (appDirPrefix st) (app_folder st) (executableName (app_metadata E st)) (disk st))
                 (filter (\<lambda>vf. strings_HasPrefix (Name vf) (appDirPrefix st)) (files st)))
         \<and> (failure (convert E debPath) = None \<longrightarrow>
              es = map (emit (appDirPrefix st) (app_folder st) (executableName (app_metadata E st))
                          (disk st))
                     (filter (\<lambda>vf. strings_HasPrefix (Name vf) (appDirPrefix st)) (files st)))"
proof -
  from convert_written [OF assms] obtain f ms items tmp st
    where run: "os_Open E debPath = Some f" "ar_NewReader E f = Some ms"
      "find_dataTar E ms = Inr (Some items)" "os_MkdirTemp E = Some tmp"
      and pass: "extraction E tmp items = Inr st"
      and pack: "pack_files E (filepath_ToSlash (appDirPrefix st)) (app_folder st)
              (executableName (app_metadata E st)) (disk st) (files st)
            = (failure (convert E debPath), es)"
    by blast
  have slash: "filepath_ToSlash (appDirPrefix st) = appDirPrefix st"
    by (simp add: filepath_ToSlash_def filepath_Separator_def)
  have filt: "in_app (appDirPrefix st) = (\<lambda>vf. strings_HasPrefix (Name vf) (appDirPrefix st))"
    by (simp add: in_app_def fun_eq_iff filepath_ToSlash_def filepath_Separator_def)
  from pass obtain new where "files st = files init_state @ new"
    and "list_all2 (stored_as (disk st))
           (filter (\<lambda>e. classified (fst e)) (entry_contents items)) new"
    unfolding extraction_def using tar_loop_stored [OF _ placed_init] by blast
  then have store: "list_all2 (stored_as (disk st))
           (filter (\<lambda>e. classified (fst e)) (entry_contents items)) (files st)"
    by (simp add: init_state_def)
  from pack_files_emitted [OF pack [unfolded slash]]
  have "prefix es
          (map (emit (appDirPrefix st) (app_folder st) (executableName (app_metadata E st)) (disk st))
             (filter (\<lambda>vf. strings_HasPrefix (Name vf) (appDirPrefix st)) (files st)))"
    and "failure (convert E debPath) = None \<longrightarrow>
          es = map (emit (appDirPrefix st) (app_folder st) (executableName (app_metadata E st))
                      (disk st))
                 (filter (\<lambda>vf. strings_HasPrefix (Name vf) (appDirPrefix st)) (files st))"
    unfolding filt by simp_all
  with run pass store show ?thesis
    by (intro exI [of _ f] exI [of _ ms] exI [of _ items] exI [of _ tmp] exI [of _ st] conjI)
      assumption+
qed

theorem output_order_witness:
  "\<exists>f ms items tmp st.
       os_Open (sample_env ''data.tar.gz'') ''pkg.deb'' = Some f
     \<and> ar_NewReader (sample_env ''data.tar.gz'') f = Some ms
     \<and> find_dataTar (sample_env ''data.tar.gz'') ms = Inr (Some items)
     \<and> os_MkdirTemp (sample_env ''data.tar.gz'') = Some tmp
     \<and> extraction (sample_env ''data.tar.gz'') tmp items = Inr st
     \<and> list_all2 (stored_as (disk st))
          (filter (\<lambda>e. classified (fst e)) (entry_contents items)) (files st)
     \<and> snd (the (ipa (convert (sample_env ''data.tar.gz'') ''pkg.deb'')))
        = map (emit (appDirPrefix st) (app_folder st)
                 (executableName (app_metadata (sample_env ''data.tar.gz'') st)) (disk st))
            (filter (\<lambda>vf. strings_HasPrefix (Name vf) (appDirPrefix st)) (files st))
     \<and> map (\<lambda>e. (zip_Name (header e), body e))
          (snd (the (ipa (convert (sample_env ''data.tar.gz'') ''pkg.deb''))))
        = [(''Payload/Foo.app/'', []), (''Payload/Foo.app/Foo'', ''abc''),
           (''Payload/Foo.app/Info.plist'', ''pl''), (''Payload/Foo.app/big'', ''BIG''),
           (''Payload/Foo.app/run'', ''Foo'')]"
proof -
  define E where "E = sample_env ''data.tar.gz''"
  define es where "es = snd (the (ipa (convert E ''pkg.deb'')))"
  have "ipa (convert E ''pkg.deb'') \<noteq> None"
    unfolding E_def by code_simp
  then have made: "ipa (convert E ''pkg.deb'') = Some (fst (the (ipa (convert E ''pkg.deb''))), es)"
    unfolding es_def by auto
  have ok: "failure (convert E ''pkg.deb'') = None"
    unfolding E_def by code_simp
  have written: "map (\<lambda>e. (zip_Name (header e), body e)) es
        = [(''Payload/Foo.app/'', []), (''Payload/Foo.app/Foo'', ''abc''),
           (''Payload/Foo.app/Info.plist'', ''pl''), (''Payload/Foo.app/big'', ''BIG''),
           (''Payload/Foo.app/run'', ''Foo'')]"
    unfolding es_def E_def by code_simp
  from output_order [OF made] obtain f ms items tmp st
    where a: "os_Open E ''pkg.deb'' = Some f" and b: "ar_NewReader E f = Some ms"
      and c: "find_dataTar E ms = Inr (Some items)" and d: "os_MkdirTemp E = Some tmp"
      and e: "extraction E tmp items = Inr st"
      and g: "list_all2 (stored_as (disk st))
          (filter (\<lambda>e. classified (fst e)) (entry_contents items)) (files st)"
      and h: "failure (convert E ''pkg.deb'') = None \<longrightarrow>
              es = map (emit (appDirPrefix st) (app_folder st) (executableName (app_metadata E st))
                          (disk st))
                     (filter (\<lambda>vf. strings_HasPrefix (Name vf) (appDirPrefix st)) (files st))"
    by (elim exE conjE) (rule that)
  from h ok have i: "es = map (emit (appDirPrefix st) (app_folder st)
        (executableName (app_metadata E st)) (disk st))
       (filter (\<lambda>vf. strings_HasPrefix (Name vf) (appDirPrefix st)) (files st))"
    by simp
  from a b c d e g i written show ?thesis
    unfolding es_def E_def
    by (intro exI [of _ f] exI [of _ ms] exI [of _ items] exI [of _ tmp] exI [of _ st] conjI)
      assumption+
qed

end
